theory Spec2Isabelle
  imports Complex_Main
begin

section \<open>Byte streams: the parts of Go's io package the plugin calls\<close>

text \<open>
  A Go \<^verbatim>\<open>[]byte\<close> and a Go \<^verbatim>\<open>string\<close> are both byte sequences; \<^typ>\<open>char\<close> is an
  8-bit value, so both are modelled as \<^typ>\<open>string\<close>.
\<close>

type_synonym bytes = string

datatype ioerr = EOF | ErrShortWrite | IOError string

text \<open>
  A network stream (a request body, an upstream response body): the chunks that successive
  \<^verbatim>\<open>Read\<close> calls will deliver, and the error (\<^const>\<open>EOF\<close> or a failure) returned once they
  are exhausted. \<open>closed\<close> records a call of \<^verbatim>\<open>Close\<close>.
\<close>

record stream =
  pending :: "bytes list"
  ending :: ioerr
  closed :: bool

text \<open>
  The readers the plugin builds: a stream, \<^verbatim>\<open>io.NopCloser(bytes.NewReader(b))\<close> and
  \<^verbatim>\<open>io.LimitedReader{R, N}\<close>.
\<close>

datatype reader =
    Src stream
  | BytesReader bytes
  | Limited reader int

text \<open>
  \<^verbatim>\<open>Read(p)\<close> with \<open>len(p) = k\<close>: the bytes delivered, the error returned (if any) and the
  reader afterwards. \<^verbatim>\<open>LimitedReader.Read\<close> answers \<^const>\<open>EOF\<close> once \<open>N \<le> 0\<close>, and
  otherwise shortens \<open>p\<close> to \<open>N\<close> bytes before reading from \<open>R\<close>.
\<close>

fun rdRead :: "nat \<Rightarrow> reader \<Rightarrow> bytes \<times> ioerr option \<times> reader" where
  "rdRead k (Src s) =
     (case pending s of
        [] \<Rightarrow> ([], Some (ending s), Src s)
      | c # cs \<Rightarrow>
          if length c \<le> k then (c, None, Src (s\<lparr>pending := cs\<rparr>))
          else (take k c, None, Src (s\<lparr>pending := drop k c # cs\<rparr>)))"
| "rdRead k (BytesReader b) =
     (if b = [] then ([], Some EOF, BytesReader b)
      else (take k b, None, BytesReader (drop k b)))"
| "rdRead k (Limited r n) =
     (if n \<le> 0 then ([], Some EOF, Limited r n)
      else
        (case rdRead (if int k > n then nat n else k) r of
           (p, e, r') \<Rightarrow> (p, e, Limited r' (n - int (length p)))))"

fun rdClose :: "reader \<Rightarrow> reader" where
  "rdClose (Src s) = Src (s\<lparr>closed := True\<rparr>)"
| "rdClose (BytesReader b) = BytesReader b"
| "rdClose (Limited r n) = Limited r n"

text \<open>What is still to be read, used as the measure of the copy loops.\<close>

fun rsize :: "reader \<Rightarrow> nat" where
  "rsize (Src s) = length (concat (pending s)) + length (pending s)"
| "rsize (BytesReader b) = length b"
| "rsize (Limited r n) = rsize r"

text \<open>
  The destination writer (the body side of the caller's \<^verbatim>\<open>http.ResponseWriter\<close>): the
  bytes written so far, and how many more it accepts before \<^verbatim>\<open>Write\<close> fails
  (\<open>None\<close>: it never fails; a caller that disconnects is \<open>Some n\<close>).
\<close>

record writer =
  wrote :: bytes
  room :: "nat option"

definition wWrite :: "bytes \<Rightarrow> writer \<Rightarrow> writer \<times> nat \<times> ioerr option" where
  "wWrite p w =
     (case room w of
        None \<Rightarrow> (w\<lparr>wrote := wrote w @ p\<rparr>, length p, None)
      | Some n \<Rightarrow>
          if length p \<le> n
          then (w\<lparr>wrote := wrote w @ p, room := Some (n - length p)\<rparr>, length p, None)
          else (w\<lparr>wrote := wrote w @ take n p, room := Some 0\<rparr>, n,
                Some (IOError ''write failed'')))"

text \<open>\<^verbatim>\<open>io.Copy\<close> allocates a buffer of 32 KiB and reads into it until the source errs.\<close>

definition copyBufSize :: nat where
  "copyBufSize = 32 * 1024"

lemma copyBufSize_pos: "0 < copyBufSize"
  by (simp add: copyBufSize_def)

lemma rdRead_decreases:
  "0 < k \<Longrightarrow> rdRead k r = (p, None, r') \<Longrightarrow> rsize r' < rsize r"
proof (induction r arbitrary: k p r')
  case (Src s)
  then show ?case
    by (cases "pending s") (auto split: if_splits)
next
  case (BytesReader b)
  then show ?case
    by (auto split: if_splits)
next
  case (Limited r n)
  show ?case
  proof (cases "n \<le> 0")
    case True
    with Limited.prems show ?thesis by simp
  next
    case False
    define k' where "k' = (if int k > n then nat n else k)"
    have k'pos: "0 < k'"
      using False Limited.prems(1) by (simp add: k'_def)
    obtain q e r0 where rd: "rdRead k' r = (q, e, r0)"
      by (cases "rdRead k' r") auto
    with Limited.prems False have "e = None" "r' = Limited r0 (n - int (length q))"
      by (auto simp: k'_def)
    with Limited.IH [OF k'pos] rd show ?thesis by simp
  qed
qed

lemma rdRead_smaller:
  "0 < k \<Longrightarrow> (p, None, r') = rdRead k r \<Longrightarrow> rsize r' < rsize r"
  using rdRead_decreases [of k r p r'] by simp

text \<open>
  The loop of \<^verbatim>\<open>io.Copy(dst, src)\<close>: read a chunk, write it, stop at the first write error,
  short write or read error; \<^const>\<open>EOF\<close> from the source is not reported as an error.
\<close>

function ioCopy :: "writer \<Rightarrow> reader \<Rightarrow> writer \<times> reader \<times> ioerr option" where
  "ioCopy dst src =
     (case rdRead copyBufSize src of
        (p, er, src') \<Rightarrow>
          if p \<noteq> [] then
            (case wWrite p dst of
               (dst', nw, ew) \<Rightarrow>
                 if ew \<noteq> None then (dst', src', ew)
                 else if length p \<noteq> nw then (dst', src', Some ErrShortWrite)
                 else
                   (case er of
                      Some e \<Rightarrow> (dst', src', if e = EOF then None else Some e)
                    | None \<Rightarrow> ioCopy dst' src'))
          else
            (case er of
               Some e \<Rightarrow> (dst, src', if e = EOF then None else Some e)
             | None \<Rightarrow> ioCopy dst src'))"
  by pat_completeness auto
termination
  by (relation "measure (\<lambda>(dst, src). rsize src)")
     (auto intro: rdRead_smaller [OF copyBufSize_pos])

declare ioCopy.simps [simp del]

text \<open>
  \<^verbatim>\<open>io.ReadAll(r)\<close>: read until the source errs; the bytes read so far are returned together
  with the error, which is nil when the source ended in \<^const>\<open>EOF\<close>. (The room offered to
  each \<^verbatim>\<open>Read\<close> changes as Go's buffer grows, from 512 bytes on; the result does not depend
  on it, and the model offers 512 bytes every time.)
\<close>

function readAll :: "reader \<Rightarrow> bytes \<Rightarrow> bytes \<times> ioerr option \<times> reader" where
  "readAll r acc =
     (case rdRead 512 r of
        (p, Some e, r') \<Rightarrow> (acc @ p, if e = EOF then None else Some e, r')
      | (p, None, r') \<Rightarrow> readAll r' (acc @ p))"
  by pat_completeness auto
termination
  by (relation "measure (\<lambda>(r, acc). rsize r)")
     (auto intro: rdRead_smaller [of 512, simplified])

declare readAll.simps [simp del]

section \<open>Slices, backing arrays and the scratch-buffer pool\<close>

text \<open>
  A Go slice is a header (pointer to a backing array, length, capacity); two slices with the
  same pointer share their bytes. The heap maps the identity of each backing array to its
  cells; \<open>fresh\<close> is the next unused identity. Every slice of the plugin starts at offset 0
  of its array.
\<close>

record slice =
  sbase :: nat
  slen :: nat
  scap :: nat

record heap =
  arrays :: "nat \<Rightarrow> nat \<Rightarrow> char"
  fresh :: nat

fun storeAt :: "(nat \<Rightarrow> char) \<Rightarrow> nat \<Rightarrow> bytes \<Rightarrow> (nat \<Rightarrow> char)" where
  "storeAt a off [] = a"
| "storeAt a off (c # cs) = storeAt (a(off := c)) (Suc off) cs"

definition sliceBytes :: "heap \<Rightarrow> slice \<Rightarrow> bytes" where
  "sliceBytes h s = map (arrays h (sbase s)) [0..<slen s]"

text \<open>A nil slice has no bytes.\<close>

definition bytesOf :: "heap \<Rightarrow> slice option \<Rightarrow> bytes" where
  "bytesOf h so = (case so of None \<Rightarrow> [] | Some s \<Rightarrow> sliceBytes h s)"

text \<open>
  The builtin \<^verbatim>\<open>append(s, p...)\<close>: within capacity the bytes are written in place behind
  the slice's length, into the array the slice points to; beyond capacity a new array is
  allocated and the old bytes are copied. (The Go runtime may round the new capacity up
  further; nothing here depends on its exact value.)
\<close>

definition goAppend :: "heap \<Rightarrow> slice \<Rightarrow> bytes \<Rightarrow> slice \<times> heap" where
  "goAppend h s p =
     (if slen s + length p \<le> scap s then
        (s\<lparr>slen := slen s + length p\<rparr>,
         h\<lparr>arrays := (arrays h)(sbase s := storeAt (arrays h (sbase s)) (slen s) p)\<rparr>)
      else
        (\<lparr>sbase = fresh h, slen = slen s + length p,
          scap = max (slen s + length p) (2 * scap s)\<rparr>,
         h\<lparr>arrays := (arrays h)(fresh h := storeAt (\<lambda>_. CHR 0x00) 0 (sliceBytes h s @ p)),
           fresh := Suc (fresh h)\<rparr>))"

definition defTimeoutMS :: int where
  "defTimeoutMS = 2000"

definition defMaxCaptureKB :: int where
  "defMaxCaptureKB = 256"

text \<open>
  \<^verbatim>\<open>slicePool\<close>, a \<^verbatim>\<open>sync.Pool\<close> of byte slices: \<^verbatim>\<open>Get\<close> hands out a pooled slice when
  there is one and otherwise calls \<^verbatim>\<open>New\<close>, which makes an empty slice of capacity
  \<open>defMaxCaptureKB * 1024\<close>; \<^verbatim>\<open>Put\<close> adds a slice to the pool. Which pooled slice
  \<^verbatim>\<open>Get\<close> picks is up to Go's runtime; the model picks the one put last, and the general
  lemmas below hold for every pool.
\<close>

definition slicePoolNew :: "heap \<Rightarrow> slice \<times> heap" where
  "slicePoolNew h =
     (\<lparr>sbase = fresh h, slen = 0, scap = nat (defMaxCaptureKB * 1024)\<rparr>,
      h\<lparr>arrays := (arrays h)(fresh h := (\<lambda>_. CHR 0x00)), fresh := Suc (fresh h)\<rparr>)"

definition slicePoolGet :: "heap \<Rightarrow> slice list \<Rightarrow> slice \<times> heap \<times> slice list" where
  "slicePoolGet h pool =
     (case pool of
        [] \<Rightarrow> (case slicePoolNew h of (s, h') \<Rightarrow> (s, h', []))
      | s # rest \<Rightarrow> (s, h, rest))"

definition slicePoolPut :: "slice \<Rightarrow> slice list \<Rightarrow> slice list" where
  "slicePoolPut s pool = s # pool"

section \<open>The tee reader and the two body helpers\<close>

text \<open>
  \<^verbatim>\<open>sliceWriter{&buf}.Write(p)\<close> appends \<open>p\<close> to \<open>buf\<close> and never fails.
  \<^verbatim>\<open>io.TeeReader(r, w)\<close> reads from \<open>r\<close> and writes what it read to \<open>w\<close>; \<open>teeW\<close> holds
  the slice header \<open>buf\<close> that the slice writer points to.
\<close>

definition sliceWriterWrite :: "bytes \<Rightarrow> slice \<Rightarrow> heap \<Rightarrow> slice \<times> heap \<times> nat \<times> ioerr option" where
  "sliceWriterWrite p buf h = (case goAppend h buf p of (buf', h') \<Rightarrow> (buf', h', length p, None))"

record teeReader =
  teeR :: reader
  teeW :: slice

definition teeRead :: "nat \<Rightarrow> teeReader \<Rightarrow> heap \<Rightarrow> bytes \<times> ioerr option \<times> teeReader \<times> heap" where
  "teeRead k t h =
     (case rdRead k (teeR t) of
        (p, e, r') \<Rightarrow>
          if 0 < length p then
            (case sliceWriterWrite p (teeW t) h of
               (buf', h', n, ew) \<Rightarrow>
                 (case ew of
                    Some err \<Rightarrow> (take n p, Some err, \<lparr>teeR = r', teeW = buf'\<rparr>, h')
                  | None \<Rightarrow> (p, e, \<lparr>teeR = r', teeW = buf'\<rparr>, h')))
          else (p, e, \<lparr>teeR = r', teeW = teeW t\<rparr>, h))"

lemma teeRead_smaller:
  "0 < k \<Longrightarrow> (p, None, t', h') = teeRead k t h \<Longrightarrow> rsize (teeR t') < rsize (teeR t)"
  by (cases "rdRead k (teeR t)")
     (auto simp: teeRead_def sliceWriterWrite_def split: if_splits prod.splits
           dest: rdRead_decreases)

text \<open>\<^verbatim>\<open>io.Copy(dst, tee)\<close>: the same loop as \<^const>\<open>ioCopy\<close>, reading through the tee.\<close>

function ioCopyTee ::
  "writer \<Rightarrow> teeReader \<Rightarrow> heap \<Rightarrow> writer \<times> teeReader \<times> heap \<times> ioerr option" where
  "ioCopyTee dst tee h =
     (case teeRead copyBufSize tee h of
        (p, er, tee', h') \<Rightarrow>
          if p \<noteq> [] then
            (case wWrite p dst of
               (dst', nw, ew) \<Rightarrow>
                 if ew \<noteq> None then (dst', tee', h', ew)
                 else if length p \<noteq> nw then (dst', tee', h', Some ErrShortWrite)
                 else
                   (case er of
                      Some e \<Rightarrow> (dst', tee', h', if e = EOF then None else Some e)
                    | None \<Rightarrow> ioCopyTee dst' tee' h'))
          else
            (case er of
               Some e \<Rightarrow> (dst, tee', h', if e = EOF then None else Some e)
             | None \<Rightarrow> ioCopyTee dst tee' h'))"
  by pat_completeness auto
termination
  by (relation "measure (\<lambda>(dst, tee, h). rsize (teeR tee))")
     (auto intro: teeRead_smaller [OF copyBufSize_pos])

declare ioCopyTee.simps [simp del]

datatype fault = Panic string | Error string

text \<open>
  \<^verbatim>\<open>captureBody(rc, max)\<close>. \<open>rc\<close> is a pointer to a \<^verbatim>\<open>ReadCloser\<close> variable: \<open>None\<close> is the
  nil pointer, \<open>Some None\<close> a variable holding nil. The result is the captured bytes (a nil
  slice is the empty sequence), the variable afterwards, and the original stream as the
  call leaves it. The error of \<^verbatim>\<open>ReadAll\<close> is dropped. \<^verbatim>\<open>all[:max]\<close> panics when
  \<open>max\<close> is negative. (The parameter \<open>max\<close> is written \<open>mx\<close>.)
\<close>

definition captureBody ::
  "reader option option \<Rightarrow> int \<Rightarrow> fault + (bytes \<times> reader option option \<times> reader option)" where
  "captureBody rc mx =
     (case rc of
        None \<Rightarrow> Inr ([], None, None)
      | Some None \<Rightarrow> Inr ([], Some None, None)
      | Some (Some body) \<Rightarrow>
          (case readAll body [] of
             (all, _, drained) \<Rightarrow>
               let old = rdClose drained;
                   rc' = Some (Some (BytesReader all))
               in if int (length all) > mx then
                    (if mx < 0 then Inl (Panic ''slice bounds out of range'')
                     else Inr (take (nat mx) all, rc', Some old))
                  else Inr (all, rc', Some old)))"

text \<open>
  \<^verbatim>\<open>streamAndCapture(dst, src, mx)\<close>, with the heap and the pool it works on. The deferred
  \<^verbatim>\<open>slicePool.Put(buf[:0])\<close> takes its argument after the copy and runs after the result
  \<open>buf\<close> has been fixed; the errors of \<^verbatim>\<open>io.Copy\<close> are dropped.
\<close>

record captureOut =
  capture :: "slice option"
  dstAfter :: writer
  srcAfter :: reader
  heapAfter :: heap
  poolAfter :: "slice list"

definition streamAndCapture ::
  "writer \<Rightarrow> reader \<Rightarrow> int \<Rightarrow> heap \<Rightarrow> slice list \<Rightarrow> captureOut" where
  "streamAndCapture dst src mx h pool =
     (if mx \<le> 0 then
        (case ioCopy dst src of
           (dst', src', _) \<Rightarrow>
             \<lparr>capture = None, dstAfter = dst', srcAfter = src', heapAfter = h, poolAfter = pool\<rparr>)
      else
        (case slicePoolGet h pool of
           (got, h1, pool1) \<Rightarrow>
             let buf = got\<lparr>slen := 0\<rparr>;
                 lr = Limited src mx;
                 tee = \<lparr>teeR = lr, teeW = buf\<rparr>
             in (case ioCopyTee dst tee h1 of
                   (dst', tee', h2, _) \<Rightarrow>
                     let buf' = teeW tee'
                     in \<lparr>capture = Some buf', dstAfter = dst',
                         srcAfter = (case teeR tee' of Limited r n \<Rightarrow> r | r \<Rightarrow> r),
                         heapAfter = h2,
                         poolAfter = slicePoolPut (buf'\<lparr>slen := 0\<rparr>) pool1\<rparr>)))"

section \<open>Configuration, logger and registration\<close>

definition tag :: string where
  "tag = ''[krakend-trace-plugin]''"

text \<open>
  The fields of \<^verbatim>\<open>url.URL\<close> that the plugin reads. Parsing (\<^verbatim>\<open>url.ParseRequestURI\<close>) and
  rendering (\<^verbatim>\<open>URL.String\<close>) belong to Go's library and are parameters of the functions
  that call them.
\<close>

record URL =
  path :: string
  rawQuery :: string

text \<open>\<^verbatim>\<open>cfg\<close>; \<open>timeout\<close> is a \<^verbatim>\<open>time.Duration\<close>, a number of nanoseconds.\<close>

record cfg =
  url :: URL
  timeout :: int
  maxCapture :: int
  verbose :: bool

definition millisecond :: int where
  "millisecond = 1000000"

text \<open>
  The values of a decoded configuration map (\<^verbatim>\<open>map[string]interface{}\<close>); a number is a
  \<^verbatim>\<open>float64\<close>, whose finite values are rationals. A missing key and an explicit null both
  read as the nil interface.
\<close>

datatype jval = JNull | JBool bool | JNum real | JStr string | JObj "(string \<times> jval) list"

text \<open>
  Conversion of a \<^verbatim>\<open>float64\<close> to a 64-bit integer truncates towards zero; outside the
  range the result is implementation-specific (the smallest integer on amd64, taken here).
  Multiplication of two 64-bit integers wraps.
\<close>

definition goInt64 :: "real \<Rightarrow> int" where
  "goInt64 v =
     (let t = (if 0 \<le> v then \<lfloor>v\<rfloor> else \<lceil>v\<rceil>)
      in if - (2 ^ 63) \<le> t \<and> t < 2 ^ 63 then t else - (2 ^ 63))"

definition wrap64 :: "int \<Rightarrow> int" where
  "wrap64 x = (x + 2 ^ 63) mod 2 ^ 64 - 2 ^ 63"

text \<open>
  The injected logger records its entries; the global \<^verbatim>\<open>logger\<close> is \<open>None\<close>, the nil
  interface, until \<^verbatim>\<open>RegisterLogger\<close> has stored one. A method call on the nil interface
  (\<^verbatim>\<open>logger.Debug(...)\<close>, \<^verbatim>\<open>logger.Info(...)\<close>) is a nil dereference and panics.
\<close>

datatype level = Debug | Info

datatype logArg = AStr string | AInt int | ABool bool | AURL URL

type_synonym logger = "(level \<times> logArg list) list option"

definition logCall :: "level \<Rightarrow> logArg list \<Rightarrow> logger \<Rightarrow> fault + logger" where
  "logCall lv args lg =
     (case lg of
        None \<Rightarrow> Inl (Panic ''nil pointer dereference'')
      | Some es \<Rightarrow> Inr (Some (es @ [(lv, args)])))"

definition vdbg :: "cfg \<Rightarrow> logArg list \<Rightarrow> logger \<Rightarrow> fault + logger" where
  "vdbg c v lg = (if verbose c \<and> lg \<noteq> None then logCall Debug (AStr tag # v) lg else Inr lg)"

definition always :: "logArg list \<Rightarrow> logger \<Rightarrow> fault + logger" where
  "always v lg = (if lg \<noteq> None then logCall Debug (AStr tag # v) lg else Inr lg)"

text \<open>
  \<^verbatim>\<open>RegisterLogger(v)\<close>: \<open>v\<close> is \<open>Some l\<close> when the value handed in implements the
  \<^verbatim>\<open>Logger\<close> interface.
\<close>

definition RegisterLogger :: "(level \<times> logArg list) list option \<Rightarrow> logger \<Rightarrow> fault + logger" where
  "RegisterLogger v lg =
     (case v of
        Some l \<Rightarrow> always [AStr ''logger injected''] (Some l)
      | None \<Rightarrow> Inr lg)"

text \<open>
  \<^verbatim>\<open>registerClients\<close> up to the construction of the handler, which is determined by the
  \<^typ>\<open>cfg\<close> it closes over. The two unchecked type assertions panic on a value of another
  type (a missing key included); the three checked ones leave the default. The call of
  \<^verbatim>\<open>logger.Info\<close> is not guarded.
\<close>

definition registerClients ::
  "(string \<Rightarrow> string + URL) \<Rightarrow> string \<Rightarrow> (string \<times> jval) list \<Rightarrow> logger
     \<Rightarrow> fault + (cfg \<times> logger)" where
  "registerClients parseRequestURI r extra lg =
     (case map_of extra r of
        Some (JObj block) \<Rightarrow>
          (case map_of block ''tracking_url'' of
             Some (JStr s) \<Rightarrow>
               (case parseRequestURI s of
                  Inl err \<Rightarrow> Inl (Error (tag @ '' invalid tracking_url: '' @ err))
                | Inr target \<Rightarrow>
                    let c0 = \<lparr>url = target, timeout = defTimeoutMS * millisecond,
                              maxCapture = defMaxCaptureKB * 1024, verbose = False\<rparr>;
                        c1 = (case map_of block ''timeout_ms'' of
                                Some (JNum v) \<Rightarrow>
                                  if v > 0 then c0\<lparr>timeout := wrap64 (goInt64 v * millisecond)\<rparr>
                                  else c0
                              | _ \<Rightarrow> c0);
                        c2 = (case map_of block ''max_capture_kb'' of
                                Some (JNum v) \<Rightarrow>
                                  if v > 0 then c1\<lparr>maxCapture := goInt64 (v * 1024)\<rparr> else c1
                              | _ \<Rightarrow> c1);
                        c3 = (case map_of block ''verbose'' of
                                Some (JBool v) \<Rightarrow> c2\<lparr>verbose := v\<rparr>
                              | _ \<Rightarrow> c2)
                    in (case logCall Info
                               [AStr tag, AStr (''config '' @ [CHR 0xE2, CHR 0x86, CHR 0x92]),
                                AURL (url c3),
                                AStr ''timeout:'', AInt (timeout c3),
                                AStr ''max_cap:'', AInt (maxCapture c3),
                                AStr ''verbose:'', ABool (verbose c3)] lg of
                          Inl f \<Rightarrow> Inl f
                        | Inr lg' \<Rightarrow> Inr (c3, lg')))
           | _ \<Rightarrow> Inl (Panic ''interface conversion: interface {} is not string''))
      | _ \<Rightarrow> Inl (Panic ''interface conversion: interface {} is not map[string]interface {}''))"

section \<open>The delivery task\<close>

text \<open>
  \<^verbatim>\<open>bufPool\<close>, a \<^verbatim>\<open>sync.Pool\<close> of \<^verbatim>\<open>bytes.Buffer\<close>: a pooled buffer still holds what was
  written to it last. \<^verbatim>\<open>Buffer.String\<close> returns a copy of the contents.
\<close>

definition bufPoolGet :: "bytes list \<Rightarrow> bytes \<times> bytes list" where
  "bufPoolGet pool = (case pool of [] \<Rightarrow> ([], []) | b # rest \<Rightarrow> (b, rest))"

definition bufPoolPut :: "bytes \<Rightarrow> bytes list \<Rightarrow> bytes list" where
  "bufPoolPut b pool = b # pool"

definition bufReset :: "bytes \<Rightarrow> bytes" where
  "bufReset b = []"

definition bufWriteString :: "string \<Rightarrow> bytes \<Rightarrow> bytes" where
  "bufWriteString s b = b @ s"

definition bufWrite :: "bytes \<Rightarrow> bytes \<Rightarrow> bytes" where
  "bufWrite p b = b @ p"

definition bufString :: "bytes \<Rightarrow> string" where
  "bufString b = b"

text \<open>
  The payload block of \<^verbatim>\<open>trackingCoroutine\<close>: the response body is read from the heap
  when it is written into the buffer; the request body was allocated by \<^verbatim>\<open>ReadAll\<close> for
  this request alone and is passed by value.
\<close>

definition trackingCoroutine_payload ::
  "(URL \<Rightarrow> string) \<Rightarrow> URL \<Rightarrow> bytes \<Rightarrow> slice option \<Rightarrow> heap \<Rightarrow> bytes list
     \<Rightarrow> string \<times> bytes list" where
  "trackingCoroutine_payload urlString urlObj reqBody respBody h pool =
     (case bufPoolGet pool of
        (got, pool1) \<Rightarrow>
          let buf = bufReset got;
              buf = bufWriteString ''{$responseBody}'' buf;
              buf = bufWrite (bytesOf h respBody) buf;
              buf = bufWriteString ''{/responseBody},{$requestBody}'' buf;
              buf = bufWrite reqBody buf;
              buf = bufWriteString ''{/requestBody},{$requestQuery}'' buf;
              buf = bufWriteString (rawQuery urlObj) buf;
              buf = bufWriteString ''{/requestQuery},{$requestUrl}'' buf;
              buf = bufWriteString (urlString urlObj) buf;
              buf = bufWriteString ''{/requestUrl}'' buf;
              payload = bufString buf
          in (payload, bufPoolPut buf pool1))"

text \<open>The same block as the other copy of the file writes it (\<^verbatim>\<open>trackCoroutine\<close>).\<close>

definition trackCoroutine_payload ::
  "(URL \<Rightarrow> string) \<Rightarrow> URL \<Rightarrow> bytes \<Rightarrow> slice option \<Rightarrow> heap \<Rightarrow> bytes list
     \<Rightarrow> string \<times> bytes list" where
  "trackCoroutine_payload urlString urlObj reqBody respBody h pool =
     (case bufPoolGet pool of
        (got, pool1) \<Rightarrow>
          let buf = bufReset got;
              buf = bufWriteString ''{$responseBody}'' buf;
              buf = bufWrite (bytesOf h respBody) buf;
              buf = bufWriteString ''{/responseBody},'' buf;
              buf = bufWriteString ''{$requestBody}'' buf;
              buf = bufWrite reqBody buf;
              buf = bufWriteString ''{/requestBody},'' buf;
              buf = bufWriteString ''{$requestQuery}'' buf;
              buf = bufWriteString (rawQuery urlObj) buf;
              buf = bufWriteString ''{/requestQuery},'' buf;
              buf = bufWriteString ''{$requestUrl}'' buf;
              buf = bufWriteString (urlString urlObj) buf;
              buf = bufWriteString ''{/requestUrl}'' buf;
              payload = bufString buf
          in (payload, bufPoolPut buf pool1))"

text \<open>
  The POST of the delivery task: method, target, body, content type and the deadline of
  its context. Its outcome (\<open>Some err\<close> when \<^verbatim>\<open>Do\<close> fails) comes from the network and is
  only logged.
\<close>

record post =
  postMethod :: string
  postTarget :: URL
  postBody :: string
  contentType :: string
  deadline :: int

definition trackingCoroutine_post ::
  "cfg \<Rightarrow> string \<Rightarrow> string option \<Rightarrow> logger \<Rightarrow> post \<times> (fault + logger)" where
  "trackingCoroutine_post c payload outcome lg =
     (let r = \<lparr>postMethod = ''POST'', postTarget = url c, postBody = payload,
               contentType = ''text/plain'', deadline = timeout c\<rparr>
      in (r, case outcome of
               Some err \<Rightarrow> vdbg c [AStr ''POST failed:'', AStr err] lg
             | None \<Rightarrow> vdbg c [AStr ''POST ok ('', AInt (int (length payload)), AStr ''B)''] lg))"

section \<open>The request handler and its delivery task\<close>

text \<open>
  The caller's \<^verbatim>\<open>http.ResponseWriter\<close>: the status once \<^verbatim>\<open>WriteHeader\<close> has been called,
  the header and the body writer. \<^verbatim>\<open>http.Error\<close> sets two header fields, writes the status
  and prints the message with \<^verbatim>\<open>fmt.Fprintln\<close>, that is, followed by a newline.
\<close>

record responseWriter =
  wStatus :: "nat option"
  wHeader :: "(string \<times> string) list"
  wBody :: writer

definition headerAdd :: "string \<Rightarrow> string \<Rightarrow> (string \<times> string) list \<Rightarrow> (string \<times> string) list" where
  "headerAdd k v hs = hs @ [(k, v)]"

definition headerDel :: "string \<Rightarrow> (string \<times> string) list \<Rightarrow> (string \<times> string) list" where
  "headerDel k hs = filter (\<lambda>kv. fst kv \<noteq> k) hs"

definition headerSet :: "string \<Rightarrow> string \<Rightarrow> (string \<times> string) list \<Rightarrow> (string \<times> string) list" where
  "headerSet k v hs = headerDel k hs @ [(k, v)]"

definition writeHeader :: "nat \<Rightarrow> responseWriter \<Rightarrow> responseWriter" where
  "writeHeader code w = (if wStatus w = None then w\<lparr>wStatus := Some code\<rparr> else w)"

definition writeBody :: "bytes \<Rightarrow> responseWriter \<Rightarrow> responseWriter" where
  "writeBody p w =
     (let w1 = writeHeader 200 w
      in case wWrite p (wBody w1) of (b, n, e) \<Rightarrow> w1\<lparr>wBody := b\<rparr>)"

definition StatusBadGateway :: nat where
  "StatusBadGateway = 502"

definition httpError :: "responseWriter \<Rightarrow> string \<Rightarrow> nat \<Rightarrow> responseWriter" where
  "httpError w msg code =
     (let h = headerDel ''Content-Length'' (wHeader w);
          h = headerSet ''Content-Type'' ''text/plain; charset=utf-8'' h;
          h = headerSet ''X-Content-Type-Options'' ''nosniff'' h;
          w1 = writeHeader code (w\<lparr>wHeader := h\<rparr>)
      in writeBody (msg @ [CHR 0x0A]) w1)"

record request =
  reqURL :: URL
  reqBody :: "reader option"

record response =
  StatusCode :: nat
  Header :: "(string \<times> string list) list"
  Body :: reader

text \<open>
  What one request meets: the configuration the handler closes over, the request, the
  outcome of the upstream call (\<open>Inl\<close> the text of its error), the outcome of the tracking
  POST, the rendering of URLs and the elapsed time that the last log line reports.
\<close>

record env =
  conf :: cfg
  req :: request
  upstream :: "string + response"
  postOutcome :: "string option"
  urlString :: "URL \<Rightarrow> string"
  elapsed :: int

text \<open>
  The handler and the goroutine it starts run concurrently. Each is cut at the points where
  it touches the channel; \<open>hpc\<close> and \<open>tpc\<close> say where each stands.
\<close>

datatype hpc = HStart | HPanicked | HSpawned | HFailed | HStreamed | HSent | HClosed | HDone

datatype tpc = TNone | TWaiting | TReceived "slice option" | TBuilt string | TDone | TPanicked

record sys =
  hpc :: hpc
  tpc :: tpc
  reqBodyVar :: "reader option"
  capReq :: bytes
  capResp :: "slice option"
  chanBuf :: "slice option list"
  chanClosed :: bool
  w :: responseWriter
  upBody :: "reader option"
  hp :: heap
  slicePool :: "slice list"
  bufPool :: "bytes list"
  lg :: logger
  posts :: "post list"

definition init :: "env \<Rightarrow> responseWriter \<Rightarrow> heap \<Rightarrow> slice list \<Rightarrow> bytes list \<Rightarrow> logger \<Rightarrow> sys" where
  "init e w0 h sp bp l =
     \<lparr>hpc = HStart, tpc = TNone, reqBodyVar = reqBody (req e), capReq = [], capResp = None,
      chanBuf = [], chanClosed = False, w = w0, upBody = None, hp = h, slicePool = sp,
      bufPool = bp, lg = l, posts = []\<rparr>"

text \<open>
  One step of the handler closure of \<^verbatim>\<open>registerClients\<close>, \<open>None\<close> when it has returned,
  has panicked or cannot move:
  capture the request body, log, make the channel (capacity 1) and start the goroutine;
  call upstream, and either answer with \<^verbatim>\<open>http.Error\<close> and return, or copy header and
  status and stream the body; send the captured slice; close the channel; log and return
  (the deferred \<^verbatim>\<open>resp.Body.Close\<close> runs).
\<close>

definition hstep :: "env \<Rightarrow> sys \<Rightarrow> sys option" where
  "hstep e s =
     (case hpc s of
        HStart \<Rightarrow>
          (case captureBody (Some (reqBodyVar s)) (maxCapture (conf e)) of
             Inl f \<Rightarrow> Some (s\<lparr>hpc := HPanicked\<rparr>)
           | Inr (b, rc', old) \<Rightarrow>
               (case vdbg (conf e) [AStr ''reqB:'', AInt (int (length b))] (lg s) of
                  Inl f \<Rightarrow> Some (s\<lparr>hpc := HPanicked\<rparr>)
                | Inr l \<Rightarrow>
                    Some (s\<lparr>hpc := HSpawned, tpc := TWaiting, capReq := b,
                            reqBodyVar := (case rc' of Some v \<Rightarrow> v | None \<Rightarrow> reqBodyVar s),
                            lg := l\<rparr>)))
      | HSpawned \<Rightarrow>
          (case upstream e of
             Inl err \<Rightarrow> Some (s\<lparr>hpc := HFailed, w := httpError (w s) err StatusBadGateway\<rparr>)
           | Inr resp \<Rightarrow>
               let hd1 = fold (\<lambda>kvs hs. fold (headerAdd (fst kvs)) (snd kvs) hs) (Header resp)
                           (wHeader (w s));
                   w1 = writeHeader (StatusCode resp) ((w s)\<lparr>wHeader := hd1\<rparr>);
                   out = streamAndCapture (wBody w1) (Body resp) (maxCapture (conf e))
                           (hp s) (slicePool s)
               in Some (s\<lparr>hpc := HStreamed, w := w1\<lparr>wBody := dstAfter out\<rparr>,
                          capResp := capture out, upBody := Some (srcAfter out),
                          hp := heapAfter out, slicePool := poolAfter out\<rparr>))
      | HStreamed \<Rightarrow>
          (if length (chanBuf s) < 1
           then Some (s\<lparr>hpc := HSent, chanBuf := chanBuf s @ [capResp s]\<rparr>)
           else None)
      | HSent \<Rightarrow> Some (s\<lparr>hpc := HClosed, chanClosed := True\<rparr>)
      | HClosed \<Rightarrow>
          (case always [AStr tag, AStr (path (reqURL (req e))), AStr ''status:'',
                        AInt (case upstream e of Inr resp \<Rightarrow> int (StatusCode resp) | Inl _ \<Rightarrow> 0),
                        AStr ''elapsed:'', AInt (elapsed e)] (lg s) of
             Inl f \<Rightarrow> Some (s\<lparr>hpc := HPanicked, upBody := map_option rdClose (upBody s)\<rparr>)
           | Inr l \<Rightarrow> Some (s\<lparr>hpc := HDone, lg := l, upBody := map_option rdClose (upBody s)\<rparr>))
      | _ \<Rightarrow> None)"

text \<open>
  One step of \<^verbatim>\<open>trackingCoroutine\<close>, \<open>None\<close> when it is blocked, has returned or has
  panicked: receive
  from the channel (a closed and empty channel yields nil); build the payload; post it and
  log the outcome.
\<close>

definition tstep :: "env \<Rightarrow> sys \<Rightarrow> sys option" where
  "tstep e s =
     (case tpc s of
        TWaiting \<Rightarrow>
          (case chanBuf s of
             v # rest \<Rightarrow> Some (s\<lparr>tpc := TReceived v, chanBuf := rest\<rparr>)
           | [] \<Rightarrow> if chanClosed s then Some (s\<lparr>tpc := TReceived None\<rparr>) else None)
      | TReceived rb \<Rightarrow>
          (case trackingCoroutine_payload (urlString e) (reqURL (req e)) (capReq s) rb (hp s)
                  (bufPool s) of
             (payload, bp) \<Rightarrow> Some (s\<lparr>tpc := TBuilt payload, bufPool := bp\<rparr>))
      | TBuilt payload \<Rightarrow>
          (case trackingCoroutine_post (conf e) payload (postOutcome e) (lg s) of
             (r, Inl f) \<Rightarrow> Some (s\<lparr>tpc := TPanicked, posts := posts s @ [r]\<rparr>)
           | (r, Inr l) \<Rightarrow> Some (s\<lparr>tpc := TDone, posts := posts s @ [r], lg := l\<rparr>))
      | _ \<Rightarrow> None)"

text \<open>
  An execution is a schedule: at each position the handler (\<open>True\<close>) or the goroutine
  (\<open>False\<close>) is chosen, and a thread that cannot move leaves the state as it is.
\<close>

definition sched1 :: "env \<Rightarrow> bool \<Rightarrow> sys \<Rightarrow> sys" where
  "sched1 e b s = (case (if b then hstep e s else tstep e s) of Some s' \<Rightarrow> s' | None \<Rightarrow> s)"

primrec run :: "env \<Rightarrow> bool list \<Rightarrow> sys \<Rightarrow> sys" where
  "run e [] s = s"
| "run e (b # bs) s = run e bs (sched1 e b s)"

section \<open>Observations used to state the properties\<close>

text \<open>The bytes a reader still delivers before it ends.\<close>

fun content :: "reader \<Rightarrow> bytes" where
  "content (Src s) = concat (pending s)"
| "content (BytesReader b) = b"
| "content (Limited r n) = take (nat n) (content r)"

text \<open>
  The configuration that \<^const>\<open>registerClients\<close> arrives at for a block and a parsed
  tracking URL, written as one record.
\<close>

definition effective :: "(string \<times> jval) list \<Rightarrow> URL \<Rightarrow> cfg" where
  "effective block target =
     \<lparr>url = target,
      timeout = (case map_of block ''timeout_ms'' of
                   Some (JNum v) \<Rightarrow> if v > 0 then wrap64 (goInt64 v * millisecond)
                                    else defTimeoutMS * millisecond
                 | _ \<Rightarrow> defTimeoutMS * millisecond),
      maxCapture = (case map_of block ''max_capture_kb'' of
                      Some (JNum v) \<Rightarrow> if v > 0 then goInt64 (v * 1024)
                                       else defMaxCaptureKB * 1024
                    | _ \<Rightarrow> defMaxCaptureKB * 1024),
      verbose = (case map_of block ''verbose'' of Some (JBool v) \<Rightarrow> v | _ \<Rightarrow> False)\<rparr>"

text \<open>
  The handler has executed its send; the payload that the delivery task builds from a state;
  the call of \<^const>\<open>streamAndCapture\<close> that the handler makes for an upstream response.
\<close>

definition hsent :: "sys \<Rightarrow> bool" where
  "hsent s = (hpc s = HSent \<or> hpc s = HClosed \<or> hpc s = HDone)"

definition payloadOf :: "env \<Rightarrow> sys \<Rightarrow> string" where
  "payloadOf e s =
     fst (trackingCoroutine_payload (urlString e) (reqURL (req e)) (capReq s) (capResp s) (hp s) [])"

definition streamed :: "env \<Rightarrow> responseWriter \<Rightarrow> heap \<Rightarrow> slice list \<Rightarrow> response \<Rightarrow> captureOut" where
  "streamed e w0 h sp resp =
     streamAndCapture (wBody w0) (Body resp) (maxCapture (conf e)) h sp"

text \<open>
  What holds of the delivery task at each of its program points, and of the handler at each
  of its own, in every state that an execution can reach.
\<close>

definition trackerInv :: "env \<Rightarrow> sys \<Rightarrow> bool" where
  "trackerInv e s =
     (case tpc s of
        TNone \<Rightarrow> (hpc s = HStart \<or> hpc s = HPanicked) \<and> chanBuf s = [] \<and> \<not> chanClosed s \<and> posts s = []
      | TWaiting \<Rightarrow>
          posts s = [] \<and>
          (if hsent s then chanBuf s = [capResp s] \<and> (chanClosed s \<longrightarrow> hpc s \<noteq> HSent)
           else (hpc s = HSpawned \<or> hpc s = HFailed \<or> hpc s = HStreamed)
                \<and> chanBuf s = [] \<and> \<not> chanClosed s)
      | TReceived v \<Rightarrow> hsent s \<and> v = capResp s \<and> chanBuf s = [] \<and> posts s = []
      | TBuilt p \<Rightarrow> hsent s \<and> p = payloadOf e s \<and> chanBuf s = [] \<and> posts s = []
      | TDone \<Rightarrow> hsent s \<and> chanBuf s = [] \<and> map postBody (posts s) = [payloadOf e s]
      | TPanicked \<Rightarrow> False)"

definition handlerInv :: "env \<Rightarrow> responseWriter \<Rightarrow> heap \<Rightarrow> slice list \<Rightarrow> sys \<Rightarrow> bool" where
  "handlerInv e w0 h sp s =
     (if hpc s = HStart \<or> hpc s = HPanicked \<or> hpc s = HSpawned
      then w s = w0 \<and> hp s = h \<and> slicePool s = sp
      else if hpc s = HFailed
      then (case upstream e of
              Inl err \<Rightarrow> w s = httpError w0 err StatusBadGateway \<and> hp s = h
            | Inr resp \<Rightarrow> False)
      else (case upstream e of
              Inl err \<Rightarrow> False
            | Inr resp \<Rightarrow>
                capResp s = capture (streamed e w0 h sp resp)
                \<and> hp s = heapAfter (streamed e w0 h sp resp)
                \<and> wBody (w s) = dstAfter (streamed e w0 h sp resp)))"



section \<open>Example inputs\<close>

text \<open>
  An empty heap, a destination that accepts every write, a stream that ends in \<^const>\<open>EOF\<close>,
  stand-ins for the URL parser and renderer of Go's library, the name under which the plugin
  registers, a configuration with a given \<open>max_capture_kb\<close>, and a request to
  \<open>/foo?x=1\<close> with a 10-byte body whose upstream answers 200 with a 5-byte body.
\<close>

definition demoHeap :: heap where
  "demoHeap = \<lparr>arrays = (\<lambda>_ _. CHR 0x00), fresh = 0\<rparr>"

definition demoWriter :: writer where
  "demoWriter = \<lparr>wrote = [], room = None\<rparr>"

definition demoStream :: "bytes list \<Rightarrow> reader" where
  "demoStream cs = Src \<lparr>pending = cs, ending = EOF, closed = False\<rparr>"

definition demoParse :: "string \<Rightarrow> string + URL" where
  "demoParse s = (if s = [] then Inl ''empty url'' else Inr \<lparr>path = s, rawQuery = []\<rparr>)"

definition demoRender :: "URL \<Rightarrow> string" where
  "demoRender u = path u @ (if rawQuery u = [] then [] else ''?'' @ rawQuery u)"

definition pluginName :: string where
  "pluginName = ''krakend-trace-plugin''"


definition demoResponseWriter :: responseWriter where
  "demoResponseWriter = \<lparr>wStatus = None, wHeader = [], wBody = demoWriter\<rparr>"

definition demoEnv :: "int \<Rightarrow> string + response \<Rightarrow> env" where
  "demoEnv mx up =
     \<lparr>conf = \<lparr>url = \<lparr>path = ''http://tracking.svc/api'', rawQuery = []\<rparr>,
              timeout = 2000 * 1000000, maxCapture = mx, verbose = False\<rparr>,
      req = \<lparr>reqURL = \<lparr>path = ''/foo'', rawQuery = ''x=1''\<rparr>,
             reqBody = Some (demoStream [''0123'', ''456789''])\<rparr>,
      upstream = up, postOutcome = None, urlString = demoRender, elapsed = 7\<rparr>"

definition demoUpstream :: "string + response" where
  "demoUpstream = Inr \<lparr>StatusCode = 200, Header = [(''Content-Type'', [''text/plain''])],
                       Body = demoStream [''hel'', ''lo'']\<rparr>"

definition demoInit :: "env \<Rightarrow> sys" where
  "demoInit e = init e demoResponseWriter demoHeap [] [] None"

text \<open>
  Two responses captured one after the other, as two requests served in sequence capture
  them: the second call starts from the heap and the pool that the first one left.
\<close>

definition firstCapture :: captureOut where
  "firstCapture = streamAndCapture demoWriter (demoStream [''first reply'']) 1024 demoHeap []"

definition secondCapture :: captureOut where
  "secondCapture = streamAndCapture demoWriter (demoStream [''SECOND'']) 1024
                     (heapAfter firstCapture) (poolAfter firstCapture)"


text \<open>
  Two requests served by the same handler; they share the heap, the two pools and the
  logger. The handler of the first runs to its end while its delivery task has not been
  scheduled; the second request is then handled on what the first has left; after that the
  delivery task of the first receives, builds its payload and posts it, on the heap as the
  second handler has left it.
\<close>

definition firstRequest :: env where
  "firstRequest = demoEnv 1024 (Inr \<lparr>StatusCode = 200, Header = [],
                                     Body = demoStream [''first reply'']\<rparr>)"

definition secondRequest :: env where
  "secondRequest = demoEnv 1024 (Inr \<lparr>StatusCode = 200, Header = [],
                                      Body = demoStream [''SECOND'']\<rparr>)"

definition afterFirstHandler :: sys where
  "afterFirstHandler = run firstRequest [True, True, True, True, True] (demoInit firstRequest)"

definition afterSecondHandler :: sys where
  "afterSecondHandler =
     run secondRequest [True, True, True, True, True]
       (init secondRequest demoResponseWriter (hp afterFirstHandler) (slicePool afterFirstHandler)
          (bufPool afterFirstHandler) (lg afterFirstHandler))"

definition firstDelivery :: sys where
  "firstDelivery =
     run firstRequest [False, False, False]
       (afterFirstHandler\<lparr>hp := hp afterSecondHandler, slicePool := slicePool afterSecondHandler,
                           bufPool := bufPool afterSecondHandler, lg := lg afterSecondHandler\<rparr>)"

section \<open>Readers, copies and captures\<close>

lemma rdRead_length: "rdRead k r = (p, e, r') \<Longrightarrow> length p \<le> k"
proof (induction r arbitrary: k p e r')
  case (Src s)
  then show ?case by (cases "pending s") (auto split: if_splits)
next
  case (BytesReader b)
  then show ?case by (auto split: if_splits)
next
  case (Limited r n)
  then show ?case
    by (fastforce split: if_splits prod.splits)
qed

lemma rdRead_content:
  "rdRead k r = (p, e, r') \<Longrightarrow> content r = p @ content r' \<and> (e \<noteq> None \<longrightarrow> p = [] \<and> content r' = [])"
proof (induction r arbitrary: k p e r')
  case (Src s)
  then show ?case by (cases "pending s") (auto split: if_splits)
next
  case (BytesReader b)
  then show ?case by (auto split: if_splits)
next
  case (Limited r n)
  show ?case
  proof (cases "n \<le> 0")
    case True
    with Limited.prems show ?thesis by auto
  next
    case False
    define k' where "k' = (if int k > n then nat n else k)"
    obtain q e0 r0 where rd: "rdRead k' r = (q, e0, r0)"
      by (cases "rdRead k' r") auto
    from rdRead_length [OF rd] have len: "length q \<le> nat n"
      using False by (auto simp: k'_def split: if_splits)
    from Limited.prems False rd have eqs: "p = q" "e = e0" "r' = Limited r0 (n - int (length q))"
      by (auto simp: k'_def)
    from Limited.IH [OF rd] have ih: "content r = q @ content r0" "e0 \<noteq> None \<longrightarrow> q = [] \<and> content r0 = []"
      by auto
    have "nat (n - int (length q)) = nat n - length q" by simp
    with ih len eqs show ?thesis by auto
  qed
qed

lemma readAll_content:
  "readAll r acc = (all, e, r') \<Longrightarrow> all = acc @ content r \<and> content r' = []"
proof (induction r acc arbitrary: all e r' rule: readAll.induct)
  case (1 r acc)
  obtain p er r0 where rd: "rdRead 512 r = (p, er, r0)"
    by (cases "rdRead 512 r") auto
  note c = rdRead_content [OF rd]
  show ?case
  proof (cases er)
    case None
    with rd "1.prems" have "readAll r0 (acc @ p) = (all, e, r')"
      by (simp add: readAll.simps [of r])
    from "1.IH" [OF rd [symmetric] refl None this] c show ?thesis by simp
  next
    case (Some x)
    with rd "1.prems" c show ?thesis
      by (auto simp add: readAll.simps [of r])
  qed
qed

lemma ioCopy_content:
  "room dst = None \<Longrightarrow> ioCopy dst r = (dst', r', e) \<Longrightarrow> wrote dst' = wrote dst @ content r \<and> room dst' = None"
proof (induction dst r arbitrary: dst' r' e rule: ioCopy.induct)
  case (1 dst src)
  obtain p er r0 where rd: "rdRead copyBufSize src = (p, er, r0)"
    by (cases "rdRead copyBufSize src") auto
  note c = rdRead_content [OF rd]
  have w: "wWrite p dst = (dst\<lparr>wrote := wrote dst @ p\<rparr>, length p, None)"
    using "1.prems"(1) by (simp add: wWrite_def)
  show ?case
  proof (cases er)
    case (Some x)
    with c have "p = []" by simp
    with Some rd "1.prems" c show ?thesis
      by (auto simp add: ioCopy.simps [of dst src])
  next
    case None
    show ?thesis
    proof (cases "p = []")
      case True
      with None rd "1.prems" have "ioCopy dst r0 = (dst', r', e)"
        by (simp add: ioCopy.simps [of dst src])
      with "1.IH"(2) [OF rd [symmetric] refl _ None "1.prems"(1)] c True
      show ?thesis by simp
    next
      case False
      with None rd w "1.prems" have "ioCopy (dst\<lparr>wrote := wrote dst @ p\<rparr>) r0 = (dst', r', e)"
        by (simp add: ioCopy.simps [of dst src])
      with "1.IH"(1) [OF rd [symmetric] refl False w [symmetric] refl _ _ None] c "1.prems"(1)
      show ?thesis by simp
    qed
  qed
qed

lemma storeAt_apply:
  "storeAt a off p i = (if off \<le> i \<and> i < off + length p then p ! (i - off) else a i)"
proof (induction p arbitrary: a off)
  case Nil
  then show ?case by auto
next
  case (Cons c cs)
  show ?case
  proof (cases "i = off")
    case True
    have "storeAt (a(off := c)) (Suc off) cs i = (a(off := c)) i"
      by (subst Cons.IH) (simp add: True)
    then show ?thesis by (simp add: True)
  next
    case False
    have nth: "(c # cs) ! (i - off) = cs ! (i - Suc off)" if "off \<le> i"
    proof -
      from that False have "i - off = Suc (i - Suc off)" by arith
      then show ?thesis by simp
    qed
    have "storeAt (a(off := c)) (Suc off) cs i =
      (if Suc off \<le> i \<and> i < Suc off + length cs then cs ! (i - Suc off) else (a(off := c)) i)"
      by (rule Cons.IH)
    with False nth show ?thesis by (cases "off \<le> i") simp_all
  qed
qed

lemma map_storeAt_low:
  "map (storeAt a off p) [0..<off] = map a [0..<off]"
  by (simp add: storeAt_apply)

lemma map_storeAt_new:
  "map (storeAt a off p) [off..<off + length p] = p"
  by (rule nth_equalityI) (simp_all add: storeAt_apply)

lemma map_storeAt_prefix:
  "map (storeAt a off p) [0..<off + length p] = map a [0..<off] @ p"
proof -
  have split: "[0..<off + length p] = [0..<off] @ [off..<off + length p]"
    by (rule upt_add_eq_append) simp
  show ?thesis
    by (subst split) (simp only: map_append map_storeAt_low map_storeAt_new)
qed

lemma sliceBytes_goAppend:
  "goAppend h s p = (s', h') \<Longrightarrow> sliceBytes h' s' = sliceBytes h s @ p"
proof (cases "slen s + length p \<le> scap s")
  case True
  assume "goAppend h s p = (s', h')"
  with True have s': "s' = s\<lparr>slen := slen s + length p\<rparr>"
    and h': "h' = h\<lparr>arrays := (arrays h)(sbase s := storeAt (arrays h (sbase s)) (slen s) p)\<rparr>"
    by (auto simp: goAppend_def)
  show ?thesis
    by (simp add: s' h' sliceBytes_def map_storeAt_prefix)
next
  case False
  assume "goAppend h s p = (s', h')"
  with False have s': "s' = \<lparr>sbase = fresh h, slen = slen s + length p, scap = max (slen s + length p) (2 * scap s)\<rparr>"
    and h': "h' = h\<lparr>arrays := (arrays h)(fresh h := storeAt (\<lambda>_. CHR 0x00) 0 (sliceBytes h s @ p)), fresh := Suc (fresh h)\<rparr>"
    by (auto simp: goAppend_def)
  have len: "length (sliceBytes h s @ p) = slen s + length p"
    by (simp add: sliceBytes_def)
  have "map (storeAt (\<lambda>_. CHR 0x00) 0 (sliceBytes h s @ p)) [0..<0 + length (sliceBytes h s @ p)] = sliceBytes h s @ p"
    by (simp only: map_storeAt_prefix) simp
  with len show ?thesis
    by (simp add: s' h' sliceBytes_def)
qed

lemma teeRead_content:
  assumes "teeRead k t h = (p, e, t', h')"
  shows "content (teeR t) = p @ content (teeR t')"
    and "e \<noteq> None \<longrightarrow> p = [] \<and> content (teeR t') = []"
    and "sliceBytes h' (teeW t') = sliceBytes h (teeW t) @ p"
proof -
  obtain q e0 r0 where rd: "rdRead k (teeR t) = (q, e0, r0)"
    by (cases "rdRead k (teeR t)") auto
  note c = rdRead_content [OF rd]
  show "content (teeR t) = p @ content (teeR t')"
    using assms rd c
    by (auto simp: teeRead_def sliceWriterWrite_def split: if_splits prod.splits)
  show "e \<noteq> None \<longrightarrow> p = [] \<and> content (teeR t') = []"
    using assms rd c
    by (auto simp: teeRead_def sliceWriterWrite_def split: if_splits prod.splits)
  show "sliceBytes h' (teeW t') = sliceBytes h (teeW t) @ p"
    using assms rd
    by (auto simp: teeRead_def sliceWriterWrite_def sliceBytes_goAppend split: if_splits prod.splits)
qed

lemma ioCopyTee_content:
  "room dst = None \<Longrightarrow> ioCopyTee dst t h = (dst', t', h', e) \<Longrightarrow>
     wrote dst' = wrote dst @ content (teeR t) \<and> room dst' = None
     \<and> sliceBytes h' (teeW t') = sliceBytes h (teeW t) @ content (teeR t)"
proof (induction dst t h arbitrary: dst' t' h' e rule: ioCopyTee.induct)
  case (1 dst tee h)
  obtain p er t0 h0 where rd: "teeRead copyBufSize tee h = (p, er, t0, h0)"
    by (cases "teeRead copyBufSize tee h") auto
  note c = teeRead_content [OF rd]
  have w: "wWrite p dst = (dst\<lparr>wrote := wrote dst @ p\<rparr>, length p, None)"
    using "1.prems"(1) by (simp add: wWrite_def)
  show ?case
  proof (cases er)
    case (Some x)
    with c have "p = []" by simp
    with Some rd "1.prems" c show ?thesis
      by (auto simp add: ioCopyTee.simps [of dst tee h])
  next
    case None
    show ?thesis
    proof (cases "p = []")
      case True
      with None rd "1.prems" have "ioCopyTee dst t0 h0 = (dst', t', h', e)"
        by (simp add: ioCopyTee.simps [of dst tee h])
      with "1.IH"(2) [OF rd [symmetric] refl refl _ None "1.prems"(1)] c True
      show ?thesis by simp
    next
      case False
      with None rd w "1.prems" have "ioCopyTee (dst\<lparr>wrote := wrote dst @ p\<rparr>) t0 h0 = (dst', t', h', e)"
        by (simp add: ioCopyTee.simps [of dst tee h])
      with "1.IH"(1) [OF rd [symmetric] refl refl False w [symmetric] refl _ _ None] c "1.prems"(1)
      show ?thesis by simp
    qed
  qed
qed


lemma readAll_done:
  "rdRead 512 r = (p, Some e, r') \<Longrightarrow> readAll r acc = (acc @ p, if e = EOF then None else Some e, r')"
  by (subst readAll.simps [of r acc]) simp

lemma readAll_more:
  "rdRead 512 r = (p, None, r') \<Longrightarrow> readAll r acc = readAll r' (acc @ p)"
  by (subst readAll.simps [of r acc]) simp

lemma readAll_Src:
  "readAll (Src s) acc =
     (acc @ concat (pending s), if ending s = EOF then None else Some (ending s), Src (s\<lparr>pending := []\<rparr>))"
proof (induction "Src s" acc arbitrary: s rule: readAll.induct)
  case (1 acc)
  show ?case
  proof (cases "pending s")
    case Nil
    then have rd: "rdRead 512 (Src s) = ([], Some (ending s), Src s)" by simp
    have "s\<lparr>pending := []\<rparr> = s" using Nil by simp
    with readAll_done [OF rd, of acc] Nil show ?thesis by simp
  next
    case (Cons c cs)
    show ?thesis
    proof (cases "length c \<le> 512")
      case True
      with Cons have rd: "rdRead 512 (Src s) = (c, None, Src (s\<lparr>pending := cs\<rparr>))" by simp
      have "readAll (Src s) acc = readAll (Src (s\<lparr>pending := cs\<rparr>)) (acc @ c)"
        by (rule readAll_more [OF rd])
      also have "\<dots> = ((acc @ c) @ concat cs, if ending s = EOF then None else Some (ending s), Src (s\<lparr>pending := []\<rparr>))"
        using "1.hyps" [OF rd [symmetric] refl refl] by simp
      finally show ?thesis using Cons by simp
    next
      case False
      with Cons have rd: "rdRead 512 (Src s) = (take 512 c, None, Src (s\<lparr>pending := drop 512 c # cs\<rparr>))" by simp
      have "readAll (Src s) acc = readAll (Src (s\<lparr>pending := drop 512 c # cs\<rparr>)) (acc @ take 512 c)"
        by (rule readAll_more [OF rd])
      also have "\<dots> = ((acc @ take 512 c) @ concat (drop 512 c # cs), if ending s = EOF then None else Some (ending s), Src (s\<lparr>pending := []\<rparr>))"
        using "1.hyps" [OF rd [symmetric] refl refl] by simp
      finally show ?thesis using Cons by simp
    qed
  qed
qed



lemma captureBody_some:
  "captureBody (Some (Some body)) mx =
     (if mx < 0 \<and> mx < int (length (content body)) then Inl (Panic ''slice bounds out of range'')
      else Inr (take (nat mx) (content body), Some (Some (BytesReader (content body))),
                Some (rdClose (snd (snd (readAll body []))))))"
proof -
  obtain a e d where ra: "readAll body [] = (a, e, d)"
    by (cases "readAll body []") auto
  from readAll_content [OF ra] have a: "a = content body" by simp
  show ?thesis
    by (auto simp: captureBody_def ra a Let_def)
qed

lemma captureBody_nil:
  "captureBody None mx = Inr ([], None, None)"
  "captureBody (Some None) mx = Inr ([], Some None, None)"
  by (simp_all add: captureBody_def)

lemma captureBody_total:
  "0 \<le> mx \<Longrightarrow> \<exists>b rc' old. captureBody (Some rb) mx = Inr (b, rc', old)"
  by (cases rb) (simp_all add: captureBody_some captureBody_nil)

lemma streamAndCapture_off:
  assumes "mx \<le> 0"
  shows "capture (streamAndCapture dst src mx h pool) = None"
    and "heapAfter (streamAndCapture dst src mx h pool) = h"
    and "poolAfter (streamAndCapture dst src mx h pool) = pool"
    and "room dst = None \<Longrightarrow> wrote (dstAfter (streamAndCapture dst src mx h pool)) = wrote dst @ content src"
proof -
  obtain d r e where c: "ioCopy dst src = (d, r, e)"
    by (cases "ioCopy dst src") auto
  from assms c show "capture (streamAndCapture dst src mx h pool) = None"
    and "heapAfter (streamAndCapture dst src mx h pool) = h"
    and "poolAfter (streamAndCapture dst src mx h pool) = pool"
    by (simp_all add: streamAndCapture_def)
  assume "room dst = None"
  from ioCopy_content [OF this c] assms c
  show "wrote (dstAfter (streamAndCapture dst src mx h pool)) = wrote dst @ content src"
    by (simp add: streamAndCapture_def)
qed

lemma streamAndCapture_on:
  assumes "0 < mx" and "room dst = None"
  shows "wrote (dstAfter (streamAndCapture dst src mx h pool)) = wrote dst @ take (nat mx) (content src)"
    and "bytesOf (heapAfter (streamAndCapture dst src mx h pool)) (capture (streamAndCapture dst src mx h pool))
          = take (nat mx) (content src)"
proof -
  obtain got h1 pool1 where g: "slicePoolGet h pool = (got, h1, pool1)"
    by (cases "slicePoolGet h pool") auto
  define tee where "tee = \<lparr>teeR = Limited src mx, teeW = got\<lparr>slen := 0\<rparr>\<rparr>"
  obtain d t h2 e where c: "ioCopyTee dst tee h1 = (d, t, h2, e)"
    by (cases "ioCopyTee dst tee h1") auto
  have out: "streamAndCapture dst src mx h pool =
    \<lparr>capture = Some (teeW t), dstAfter = d,
     srcAfter = (case teeR t of Limited r n \<Rightarrow> r | r \<Rightarrow> r),
     heapAfter = h2, poolAfter = slicePoolPut ((teeW t)\<lparr>slen := 0\<rparr>) pool1\<rparr>"
    using assms(1) g c by (simp add: streamAndCapture_def tee_def Let_def)
  have empty: "sliceBytes h1 (teeW tee) = []"
    by (simp add: tee_def sliceBytes_def)
  from ioCopyTee_content [OF assms(2) c] empty
  have "wrote d = wrote dst @ content (teeR tee)" "sliceBytes h2 (teeW t) = content (teeR tee)"
    by simp_all
  then show "wrote (dstAfter (streamAndCapture dst src mx h pool)) = wrote dst @ take (nat mx) (content src)"
    and "bytesOf (heapAfter (streamAndCapture dst src mx h pool)) (capture (streamAndCapture dst src mx h pool))
          = take (nat mx) (content src)"
    by (simp_all add: out tee_def bytesOf_def)
qed

lemma streamAndCapture_alias:
  assumes "0 < mx"
  shows "\<exists>b rest. capture (streamAndCapture dst src mx h pool) = Some b
           \<and> poolAfter (streamAndCapture dst src mx h pool) = b\<lparr>slen := 0\<rparr> # rest"
proof -
  obtain got h1 pool1 where g: "slicePoolGet h pool = (got, h1, pool1)"
    by (cases "slicePoolGet h pool") auto
  define tee where "tee = \<lparr>teeR = Limited src mx, teeW = got\<lparr>slen := 0\<rparr>\<rparr>"
  obtain d t h2 e where c: "ioCopyTee dst tee h1 = (d, t, h2, e)"
    by (cases "ioCopyTee dst tee h1") auto
  show ?thesis
    using assms g c by (simp add: streamAndCapture_def tee_def Let_def slicePoolPut_def)
qed

text \<open>
  While the capture fits the capacity of the slice taken from the pool, \<^verbatim>\<open>append\<close> never
  reallocates: the bytes are written into the pooled array itself.
\<close>

lemma storeAt_append:
  "storeAt a off (p @ q) = storeAt (storeAt a off p) (off + length p) q"
  by (induction p arbitrary: a off) simp_all

lemma teeRead_inplace:
  assumes "teeRead k t h = (p, e, t', h')"
    and "slen (teeW t) + length p \<le> scap (teeW t)"
  shows "teeW t' = (teeW t)\<lparr>slen := slen (teeW t) + length p\<rparr>"
    and "h' = h\<lparr>arrays := (arrays h)(sbase (teeW t) :=
                 storeAt (arrays h (sbase (teeW t))) (slen (teeW t)) p)\<rparr>"
proof -
  obtain q e0 r0 where rd: "rdRead k (teeR t) = (q, e0, r0)"
    by (cases "rdRead k (teeR t)") auto
  show "teeW t' = (teeW t)\<lparr>slen := slen (teeW t) + length p\<rparr>"
    using assms rd
    by (auto simp: teeRead_def sliceWriterWrite_def goAppend_def split: if_splits)
  show "h' = h\<lparr>arrays := (arrays h)(sbase (teeW t) :=
                 storeAt (arrays h (sbase (teeW t))) (slen (teeW t)) p)\<rparr>"
    using assms rd
    by (auto simp: teeRead_def sliceWriterWrite_def goAppend_def split: if_splits)
qed

lemma ioCopyTee_inplace:
  "room dst = None \<Longrightarrow> ioCopyTee dst t h = (dst', t', h', e) \<Longrightarrow>
   slen (teeW t) + length (content (teeR t)) \<le> scap (teeW t) \<Longrightarrow>
     teeW t' = (teeW t)\<lparr>slen := slen (teeW t) + length (content (teeR t))\<rparr>
     \<and> h' = h\<lparr>arrays := (arrays h)(sbase (teeW t) :=
                 storeAt (arrays h (sbase (teeW t))) (slen (teeW t)) (content (teeR t)))\<rparr>"
proof (induction dst t h arbitrary: dst' t' h' e rule: ioCopyTee.induct)
  case (1 dst tee h)
  obtain p er t0 h0 where rd: "teeRead copyBufSize tee h = (p, er, t0, h0)"
    by (cases "teeRead copyBufSize tee h") auto
  note c = teeRead_content [OF rd]
  from c(1) "1.prems"(3) have fit: "slen (teeW tee) + length p \<le> scap (teeW tee)"
    by simp
  note ip = teeRead_inplace [OF rd fit]
  have w: "wWrite p dst = (dst\<lparr>wrote := wrote dst @ p\<rparr>, length p, None)"
    using "1.prems"(1) by (simp add: wWrite_def)
  show ?case
  proof (cases er)
    case (Some x)
    with c have "p = []" "content (teeR tee) = []" by simp_all
    with Some rd "1.prems" ip show ?thesis
      by (auto simp add: ioCopyTee.simps [of dst tee h])
  next
    case None
    have fit0: "slen (teeW t0) + length (content (teeR t0)) \<le> scap (teeW t0)"
      using ip(1) c(1) "1.prems"(3) by simp
    show ?thesis
    proof (cases "p = []")
      case True
      with None rd "1.prems" have rec: "ioCopyTee dst t0 h0 = (dst', t', h', e)"
        by (simp add: ioCopyTee.simps [of dst tee h])
      have "teeW t' = (teeW t0)\<lparr>slen := slen (teeW t0) + length (content (teeR t0))\<rparr>
          \<and> h' = h0\<lparr>arrays := (arrays h0)(sbase (teeW t0) :=
                 storeAt (arrays h0 (sbase (teeW t0))) (slen (teeW t0)) (content (teeR t0)))\<rparr>"
        by (rule "1.IH"(2) [OF rd [symmetric] refl refl _ None "1.prems"(1) rec fit0])
           (simp add: True)
      moreover have "teeW t0 = teeW tee" "h0 = h" "content (teeR tee) = content (teeR t0)"
        using ip c(1) True by simp_all
      ultimately show ?thesis by (simp only:)
    next
      case False
      with None rd w "1.prems"
      have rec: "ioCopyTee (dst\<lparr>wrote := wrote dst @ p\<rparr>) t0 h0 = (dst', t', h', e)"
        by (simp add: ioCopyTee.simps [of dst tee h])
      have room': "room (dst\<lparr>wrote := wrote dst @ p\<rparr>) = None"
        using "1.prems"(1) by simp
      have "teeW t' = (teeW t0)\<lparr>slen := slen (teeW t0) + length (content (teeR t0))\<rparr>
          \<and> h' = h0\<lparr>arrays := (arrays h0)(sbase (teeW t0) :=
                 storeAt (arrays h0 (sbase (teeW t0))) (slen (teeW t0)) (content (teeR t0)))\<rparr>"
        by (rule "1.IH"(1) [OF rd [symmetric] refl refl False w [symmetric] refl _ _ None room' rec fit0])
           simp_all
      then have t': "teeW t' = (teeW t0)\<lparr>slen := slen (teeW t0) + length (content (teeR t0))\<rparr>"
        and h': "h' = h0\<lparr>arrays := (arrays h0)(sbase (teeW t0) :=
                 storeAt (arrays h0 (sbase (teeW t0))) (slen (teeW t0)) (content (teeR t0)))\<rparr>"
        by simp_all
      have sb: "sbase (teeW t0) = sbase (teeW tee)" "slen (teeW t0) = slen (teeW tee) + length p"
        using ip(1) by simp_all
      have ar: "arrays h0 (sbase (teeW tee)) =
          storeAt (arrays h (sbase (teeW tee))) (slen (teeW tee)) p"
        using ip(2) by simp
      have "teeW t' = (teeW tee)\<lparr>slen := slen (teeW tee) + length (content (teeR tee))\<rparr>"
        by (simp add: t' ip(1) c(1))
      moreover have "h' = h\<lparr>arrays := (arrays h)(sbase (teeW tee) :=
                 storeAt (arrays h (sbase (teeW tee))) (slen (teeW tee)) (content (teeR tee)))\<rparr>"
        unfolding h' sb ar c(1) storeAt_append
        by (subst ip(2), subst ip(2)) simp
      ultimately show ?thesis by (rule conjI)
    qed
  qed
qed

lemma streamAndCapture_inplace:
  assumes "0 < mx" and "room dst = None"
    and "slicePoolGet h pool = (got, h1, pool1)"
    and "length (take (nat mx) (content src)) \<le> scap got"
  shows "capture (streamAndCapture dst src mx h pool)
           = Some (got\<lparr>slen := length (take (nat mx) (content src))\<rparr>)"
    and "heapAfter (streamAndCapture dst src mx h pool)
           = h1\<lparr>arrays := (arrays h1)(sbase got :=
                  storeAt (arrays h1 (sbase got)) 0 (take (nat mx) (content src)))\<rparr>"
    and "poolAfter (streamAndCapture dst src mx h pool) = got\<lparr>slen := 0\<rparr> # pool1"
proof -
  define tee where "tee = \<lparr>teeR = Limited src mx, teeW = got\<lparr>slen := 0\<rparr>\<rparr>"
  obtain d t h2 e where c: "ioCopyTee dst tee h1 = (d, t, h2, e)"
    by (cases "ioCopyTee dst tee h1") auto
  have out: "streamAndCapture dst src mx h pool =
    \<lparr>capture = Some (teeW t), dstAfter = d,
     srcAfter = (case teeR t of Limited r n \<Rightarrow> r | r \<Rightarrow> r),
     heapAfter = h2, poolAfter = slicePoolPut ((teeW t)\<lparr>slen := 0\<rparr>) pool1\<rparr>"
    using assms(1,3) c by (simp add: streamAndCapture_def tee_def Let_def)
  have fit: "slen (teeW tee) + length (content (teeR tee)) \<le> scap (teeW tee)"
    using assms(4) by (simp add: tee_def)
  from ioCopyTee_inplace [OF assms(2) c fit]
  have "teeW t = got\<lparr>slen := length (take (nat mx) (content src))\<rparr>"
    and "h2 = h1\<lparr>arrays := (arrays h1)(sbase got :=
                  storeAt (arrays h1 (sbase got)) 0 (take (nat mx) (content src)))\<rparr>"
    by (simp_all add: tee_def)
  then show "capture (streamAndCapture dst src mx h pool)
           = Some (got\<lparr>slen := length (take (nat mx) (content src))\<rparr>)"
    and "heapAfter (streamAndCapture dst src mx h pool)
           = h1\<lparr>arrays := (arrays h1)(sbase got :=
                  storeAt (arrays h1 (sbase got)) 0 (take (nat mx) (content src)))\<rparr>"
    and "poolAfter (streamAndCapture dst src mx h pool) = got\<lparr>slen := 0\<rparr> # pool1"
    by (simp_all add: out slicePoolPut_def)
qed

lemma firstCapture_eval:
  "capture firstCapture = Some \<lparr>sbase = 0, slen = 11, scap = 262144\<rparr>"
  "poolAfter firstCapture = [\<lparr>sbase = 0, slen = 0, scap = 262144\<rparr>]"
  "heapAfter firstCapture =
     \<lparr>arrays = (\<lambda>_ _. CHR 0x00)(0 := storeAt (\<lambda>_. CHR 0x00) 0 ''first reply''), fresh = 1\<rparr>"
  unfolding firstCapture_def
  by (subst streamAndCapture_inplace
        [where got = "\<lparr>sbase = 0, slen = 0, scap = 262144\<rparr>"
           and ?h1.0 = "\<lparr>arrays = (\<lambda>_ _. CHR 0x00)(0 := (\<lambda>_. CHR 0x00)), fresh = 1\<rparr>" and ?pool1.0 = "[]"];
      simp add: demoWriter_def demoStream_def demoHeap_def slicePoolGet_def slicePoolNew_def
        defMaxCaptureKB_def)+






lemma firstCapture_bytes: "bytesOf (heapAfter firstCapture) (capture firstCapture) = ''first reply''"
  by (simp add: firstCapture_def streamAndCapture_on demoWriter_def demoStream_def)

lemma secondCapture_eval:
  "capture secondCapture = Some \<lparr>sbase = 0, slen = 6, scap = 262144\<rparr>"
  "bytesOf (heapAfter secondCapture) (capture firstCapture) = ''SECONDreply''"
proof -
  have g: "slicePoolGet (heapAfter firstCapture) (poolAfter firstCapture)
             = (\<lparr>sbase = 0, slen = 0, scap = 262144\<rparr>, heapAfter firstCapture, [])"
    by (simp add: firstCapture_eval slicePoolGet_def)
  show "capture secondCapture = Some \<lparr>sbase = 0, slen = 6, scap = 262144\<rparr>"
    unfolding secondCapture_def
    by (subst streamAndCapture_inplace(1) [OF _ _ g])
       (simp_all add: demoWriter_def demoStream_def)
  have s2: "heapAfter secondCapture =
      (heapAfter firstCapture)\<lparr>arrays := (arrays (heapAfter firstCapture))(0 :=
                  storeAt (arrays (heapAfter firstCapture) 0) 0 ''SECOND'')\<rparr>"
    unfolding secondCapture_def
    by (subst streamAndCapture_inplace(2) [OF _ _ g])
       (simp_all add: demoWriter_def demoStream_def)
  have up: "[0..<11] = [0,1,2,3,4,5,6,7,8,9,10]"
    by (simp add: upt_rec)
  show "bytesOf (heapAfter secondCapture) (capture firstCapture) = ''SECONDreply''"
    by (simp add: s2 firstCapture_eval bytesOf_def sliceBytes_def up)
qed

section \<open>Logging and registration\<close>

text \<open>Guarded as they are, the two helpers never reach the call on a nil logger.\<close>

lemma vdbg_ok:
  "vdbg c v l = Inr (if verbose c then map_option (\<lambda>es. es @ [(Debug, AStr tag # v)]) l else l)"
  by (cases l) (simp_all add: vdbg_def logCall_def)

lemma always_ok:
  "always v l = Inr (map_option (\<lambda>es. es @ [(Debug, AStr tag # v)]) l)"
  by (cases l) (simp_all add: always_def logCall_def)

lemma over_timeout:
  "(case x of Some (JNum v) \<Rightarrow> if v > 0 then c0\<lparr>timeout := f v\<rparr> else c0 | _ \<Rightarrow> c0)
     = c0\<lparr>timeout := (case x of Some (JNum v) \<Rightarrow> if v > 0 then f v else timeout c0 | _ \<Rightarrow> timeout c0)\<rparr>"
  by (simp split: option.split jval.split)

lemma over_maxCapture:
  "(case x of Some (JNum v) \<Rightarrow> if v > 0 then c0\<lparr>maxCapture := f v\<rparr> else c0 | _ \<Rightarrow> c0)
     = c0\<lparr>maxCapture := (case x of Some (JNum v) \<Rightarrow> if v > 0 then f v else maxCapture c0 | _ \<Rightarrow> maxCapture c0)\<rparr>"
  by (simp split: option.split jval.split)

lemma over_verbose:
  "(case x of Some (JBool v) \<Rightarrow> c0\<lparr>verbose := v\<rparr> | _ \<Rightarrow> c0)
     = c0\<lparr>verbose := (case x of Some (JBool v) \<Rightarrow> v | _ \<Rightarrow> verbose c0)\<rparr>"
  by (simp split: option.split jval.split)

lemma registerClients_form:
  assumes "map_of extra r = Some (JObj block)"
    and "map_of block ''tracking_url'' = Some (JStr u)"
  shows "registerClients P r extra l =
     (case P u of
        Inl err \<Rightarrow> Inl (Error (tag @ '' invalid tracking_url: '' @ err))
      | Inr target \<Rightarrow>
          (case l of
             None \<Rightarrow> Inl (Panic ''nil pointer dereference'')
           | Some es \<Rightarrow>
               Inr (effective block target,
                    Some (es @ [(Info,
                      [AStr tag, AStr (''config '' @ [CHR 0xE2, CHR 0x86, CHR 0x92]),
                       AURL (url (effective block target)),
                       AStr ''timeout:'', AInt (timeout (effective block target)),
                       AStr ''max_cap:'', AInt (maxCapture (effective block target)),
                       AStr ''verbose:'', ABool (verbose (effective block target))])]))))"
  unfolding registerClients_def assms option.case jval.case over_timeout over_maxCapture over_verbose
  by (cases l)
     (simp_all add: Let_def effective_def logCall_def
        cong: sum.case_cong option.case_cong jval.case_cong if_cong)


lemma registerClients_malformed:
  assumes "map_of extra r = Some (JObj block)" and "map_of block ''tracking_url'' = Some (JStr u)"
    and "P u = Inl err"
  shows "registerClients P r extra l = Inl (Error (tag @ '' invalid tracking_url: '' @ err))"
  using assms by (simp add: registerClients_def)

lemma registerClients_minimal:
  assumes "P u = Inr target"
  shows "registerClients P r [(r, JObj [(''tracking_url'', JStr u)])] (Some es) =
    Inr (\<lparr>url = target, timeout = 2000 * 1000000, maxCapture = 256 * 1024, verbose = False\<rparr>,
         Some (es @ [(Info, [AStr tag, AStr (''config '' @ [CHR 0xE2, CHR 0x86, CHR 0x92]), AURL target,
                               AStr ''timeout:'', AInt (2000 * 1000000),
                               AStr ''max_cap:'', AInt (256 * 1024),
                               AStr ''verbose:'', ABool False])]))"
  using assms
  by (simp add: registerClients_def logCall_def defTimeoutMS_def millisecond_def defMaxCaptureKB_def)

text \<open>
  A \<open>max_capture_kb\<close> beyond the range of 64-bit integers passes the guard \<open>v > 0\<close> and is
  converted to a negative limit.
\<close>

lemma huge_max_capture_kb_is_negative:
  "maxCapture (effective [(''tracking_url'', JStr u), (''max_capture_kb'', JNum (10 ^ 300))] target)
     = - (2 ^ 63)"
  by (simp add: effective_def goInt64_def Let_def)

section \<open>The payload and the handoff\<close>

lemma payload_eq:
  "trackingCoroutine_payload us u rq rb h pool =
     (''{$responseBody}'' @ bytesOf h rb @ ''{/responseBody},{$requestBody}'' @ rq
        @ ''{/requestBody},{$requestQuery}'' @ rawQuery u @ ''{/requestQuery},{$requestUrl}''
        @ us u @ ''{/requestUrl}'',
      (''{$responseBody}'' @ bytesOf h rb @ ''{/responseBody},{$requestBody}'' @ rq
        @ ''{/requestBody},{$requestQuery}'' @ rawQuery u @ ''{/requestQuery},{$requestUrl}''
        @ us u @ ''{/requestUrl}'') # snd (bufPoolGet pool))"
  by (cases "bufPoolGet pool")
     (simp add: trackingCoroutine_payload_def bufReset_def bufWriteString_def bufWrite_def
        bufString_def bufPoolPut_def Let_def)

lemma payload_eq2:
  "trackCoroutine_payload us u rq rb h pool = trackingCoroutine_payload us u rq rb h pool"
  by (cases "bufPoolGet pool")
     (simp add: trackingCoroutine_payload_def trackCoroutine_payload_def bufReset_def bufWriteString_def bufWrite_def
        bufString_def bufPoolPut_def Let_def)

lemma trackerInv_init: "trackerInv e (init e w0 h sp bp l)"
  by (simp add: trackerInv_def init_def)

lemma trackerInv_hstep:
  assumes "trackerInv e s" and "hstep e s = Some s'"
  shows "trackerInv e s'"
proof (cases "hpc s")
  case HStart
  with assms show ?thesis
    by (auto simp: trackerInv_def hstep_def hsent_def vdbg_ok split: tpc.splits sum.splits prod.splits)
next
  case HPanicked
  with assms show ?thesis by (simp add: hstep_def)
next
  case HSpawned
  with assms show ?thesis
    by (auto simp: trackerInv_def hstep_def hsent_def Let_def split: tpc.splits sum.splits)
next
  case HFailed
  with assms show ?thesis by (simp add: hstep_def)
next
  case HStreamed
  with assms show ?thesis
    by (auto simp: trackerInv_def hstep_def hsent_def payloadOf_def split: tpc.splits if_splits)
next
  case HSent
  with assms show ?thesis
    by (auto simp: trackerInv_def hstep_def hsent_def payloadOf_def split: tpc.splits if_splits)
next
  case HClosed
  with assms show ?thesis
    by (auto simp: trackerInv_def hstep_def hsent_def payloadOf_def always_ok split: tpc.splits if_splits)
next
  case HDone
  with assms show ?thesis by (simp add: hstep_def)
qed

lemma trackerInv_tstep:
  assumes "trackerInv e s" and "tstep e s = Some s'"
  shows "trackerInv e s'"
proof (cases "tpc s")
  case TNone
  with assms show ?thesis by (simp add: tstep_def)
next
  case TWaiting
  with assms show ?thesis
    by (auto simp: trackerInv_def tstep_def hsent_def split: list.splits if_splits)
next
  case (TReceived v)
  with assms show ?thesis
    by (auto simp: trackerInv_def tstep_def hsent_def payloadOf_def payload_eq)
next
  case (TBuilt p)
  with assms show ?thesis
    by (auto simp: trackerInv_def tstep_def hsent_def payloadOf_def payload_eq
          trackingCoroutine_post_def vdbg_ok Let_def split: option.splits)
next
  case TDone
  with assms show ?thesis by (simp add: tstep_def)
next
  case TPanicked
  with assms show ?thesis by (simp add: tstep_def)
qed

lemma trackerInv_sched1: "trackerInv e s \<Longrightarrow> trackerInv e (sched1 e b s)"
  by (auto simp: sched1_def split: option.splits intro: trackerInv_hstep trackerInv_tstep)

lemma trackerInv_run: "trackerInv e s \<Longrightarrow> trackerInv e (run e sched s)"
  by (induction sched arbitrary: s) (simp_all add: trackerInv_sched1)

lemma handlerInv_init: "handlerInv e w0 h sp (init e w0 h sp bp l)"
  by (simp add: handlerInv_def init_def)

lemma wBody_writeHeader: "wBody (writeHeader code x) = wBody x"
  by (simp add: writeHeader_def)

lemma handlerInv_hstep:
  assumes "handlerInv e w0 h sp s" and "hstep e s = Some s'"
  shows "handlerInv e w0 h sp s'"
proof (cases "hpc s")
  case HStart
  with assms show ?thesis
    by (auto simp: handlerInv_def hstep_def vdbg_ok split: sum.splits prod.splits)
next
  case HPanicked
  with assms show ?thesis by (simp add: hstep_def)
next
  case HSpawned
  with assms show ?thesis
    by (auto simp: handlerInv_def hstep_def Let_def streamed_def wBody_writeHeader split: sum.splits)
next
  case HFailed
  with assms show ?thesis by (simp add: hstep_def)
next
  case HStreamed
  with assms show ?thesis
    by (auto simp: handlerInv_def hstep_def split: sum.splits if_splits)
next
  case HSent
  with assms show ?thesis
    by (auto simp: handlerInv_def hstep_def split: sum.splits if_splits)
next
  case HClosed
  with assms show ?thesis
    by (auto simp: handlerInv_def hstep_def always_ok split: sum.splits if_splits)
next
  case HDone
  with assms show ?thesis by (simp add: hstep_def)
qed

lemma tstep_keeps:
  assumes "tstep e s = Some s'"
  shows "hpc s' = hpc s" "w s' = w s" "hp s' = hp s" "slicePool s' = slicePool s"
    "capResp s' = capResp s" "capReq s' = capReq s" "chanClosed s' = chanClosed s"
  using assms
  by (auto simp: tstep_def split: tpc.splits list.splits if_splits prod.splits sum.splits)

lemma handlerInv_tstep:
  assumes "handlerInv e w0 h sp s" and "tstep e s = Some s'"
  shows "handlerInv e w0 h sp s'"
  using assms(1) tstep_keeps [OF assms(2)]
  by (simp add: handlerInv_def cong: sum.case_cong if_cong)

lemma handlerInv_run: "handlerInv e w0 h sp s \<Longrightarrow> handlerInv e w0 h sp (run e sched s)"
proof (induction sched arbitrary: s)
  case Nil
  then show ?case by simp
next
  case (Cons b bs)
  have "handlerInv e w0 h sp (sched1 e b s)"
    using Cons.prems
    by (auto simp: sched1_def split: option.splits intro: handlerInv_hstep handlerInv_tstep)
  then show ?case by (simp add: Cons.IH)
qed

lemma reach_inv:
  "trackerInv e (run e sched (init e w0 h sp bp l))"
  "handlerInv e w0 h sp (run e sched (init e w0 h sp bp l))"
  by (simp_all add: trackerInv_run trackerInv_init handlerInv_run handlerInv_init)






text \<open>
  In every execution of a request, that is, for every schedule of the handler and its
  goroutine: as long as the delivery task has not received from the channel, nothing has
  been posted; once it has received, the handler has executed its send, and the value
  received is the slice that \<^verbatim>\<open>streamAndCapture\<close> returned for the upstream response; the
  payload it builds after that, and the body of the one POST it makes, hold between the
  response-body markers the bytes that this slice holds in the heap of that state.
\<close>

lemma handoff_precedes_payload:
  assumes "s = run e sched (init e w0 h sp bp l)"
  shows "(tpc s = TNone \<or> tpc s = TWaiting \<longrightarrow> posts s = [])
       \<and> (\<forall>v. tpc s = TReceived v \<longrightarrow> hsent s \<and> v = capResp s \<and> posts s = [])
       \<and> (\<forall>p. tpc s = TBuilt p \<longrightarrow> hsent s \<and> p = payloadOf e s \<and> posts s = [])
       \<and> (tpc s = TDone \<longrightarrow> hsent s \<and> map postBody (posts s) = [payloadOf e s])
       \<and> (hsent s \<longrightarrow>
            (\<exists>resp. upstream e = Inr resp
               \<and> capResp s = capture (streamed e w0 h sp resp)
               \<and> hp s = heapAfter (streamed e w0 h sp resp)))
       \<and> payloadOf e s =
            ''{$responseBody}'' @ bytesOf (hp s) (capResp s) @ ''{/responseBody},{$requestBody}''
              @ capReq s @ ''{/requestBody},{$requestQuery}'' @ rawQuery (reqURL (req e))
              @ ''{/requestQuery},{$requestUrl}'' @ urlString e (reqURL (req e)) @ ''{/requestUrl}''"
proof -
  have t: "trackerInv e s" and hi: "handlerInv e w0 h sp s"
    using assms by (simp_all add: reach_inv)
  from t have a: "tpc s = TNone \<or> tpc s = TWaiting \<longrightarrow> posts s = []"
    by (auto simp: trackerInv_def)
  from t have b: "\<forall>v. tpc s = TReceived v \<longrightarrow> hsent s \<and> v = capResp s \<and> posts s = []"
    by (auto simp: trackerInv_def)
  from t have c: "\<forall>p. tpc s = TBuilt p \<longrightarrow> hsent s \<and> p = payloadOf e s \<and> posts s = []"
    by (auto simp: trackerInv_def)
  from t have d: "tpc s = TDone \<longrightarrow> hsent s \<and> map postBody (posts s) = [payloadOf e s]"
    by (auto simp: trackerInv_def)
  from hi have f: "hsent s \<longrightarrow>
            (\<exists>resp. upstream e = Inr resp
               \<and> capResp s = capture (streamed e w0 h sp resp)
               \<and> hp s = heapAfter (streamed e w0 h sp resp))"
    by (auto simp: handlerInv_def hsent_def split: sum.splits)
  have g: "payloadOf e s =
            ''{$responseBody}'' @ bytesOf (hp s) (capResp s) @ ''{/responseBody},{$requestBody}''
              @ capReq s @ ''{/requestBody},{$requestQuery}'' @ rawQuery (reqURL (req e))
              @ ''{/requestQuery},{$requestUrl}'' @ urlString e (reqURL (req e)) @ ''{/requestUrl}''"
    by (simp add: payloadOf_def payload_eq)
  from a b c d f g show ?thesis by blast
qed

text \<open>When the upstream call fails, the handler ends in its failure branch and stays there.\<close>

lemma hstep_failed: "hpc s = HFailed \<Longrightarrow> hstep e s = None"
  by (simp add: hstep_def)

lemma sched1_tracker_hpc: "hpc (sched1 e False s) = hpc s"
  by (cases "tstep e s") (simp_all add: sched1_def tstep_keeps)

lemma failed_stays: "hpc s = HFailed \<Longrightarrow> hpc (run e sched s) = HFailed"
proof (induction sched arbitrary: s)
  case Nil
  then show ?case by simp
next
  case (Cons b bs)
  have "hpc (sched1 e b s) = HFailed"
    using Cons.prems by (cases b) (simp_all add: sched1_tracker_hpc, simp add: sched1_def hstep_failed)
  then show ?case by (simp add: Cons.IH)
qed

lemma spawned_fails:
  assumes "upstream e = Inl err"
  shows "hpc s = HSpawned \<Longrightarrow> 1 \<le> length (filter (\<lambda>b. b) sched) \<Longrightarrow> hpc (run e sched s) = HFailed"
proof (induction sched arbitrary: s)
  case Nil
  then show ?case by simp
next
  case (Cons b bs)
  show ?case
  proof (cases b)
    case True
    have "hpc (sched1 e True s) = HFailed"
      using Cons.prems(1) assms by (simp add: sched1_def hstep_def)
    with True show ?thesis by (simp add: failed_stays)
  next
    case False
    with Cons.prems have "hpc (sched1 e b s) = HSpawned" "1 \<le> length (filter (\<lambda>b. b) bs)"
      by (simp_all add: sched1_tracker_hpc)
    then show ?thesis by (simp add: Cons.IH)
  qed
qed

lemma start_fails:
  assumes "upstream e = Inl err" and "0 \<le> maxCapture (conf e)"
  shows "hpc s = HStart \<Longrightarrow> 2 \<le> length (filter (\<lambda>b. b) sched) \<Longrightarrow> hpc (run e sched s) = HFailed"
proof (induction sched arbitrary: s)
  case Nil
  then show ?case by simp
next
  case (Cons b bs)
  show ?case
  proof (cases b)
    case True
    from captureBody_total [OF assms(2)] obtain cb rc' old
      where "captureBody (Some (reqBodyVar s)) (maxCapture (conf e)) = Inr (cb, rc', old)"
      by blast
    then have "hpc (sched1 e True s) = HSpawned"
      using Cons.prems(1) by (simp add: sched1_def hstep_def vdbg_ok)
    moreover from Cons.prems(2) True have "1 \<le> length (filter (\<lambda>b. b) bs)" by simp
    ultimately show ?thesis using True by (simp add: spawned_fails [OF assms(1)])
  next
    case False
    with Cons.prems have "hpc (sched1 e b s) = HStart" "2 \<le> length (filter (\<lambda>b. b) bs)"
      by (simp_all add: sched1_tracker_hpc)
    then show ?thesis by (simp add: Cons.IH)
  qed
qed

lemma httpError_fresh:
  assumes "wStatus w0 = None" and "wrote (wBody w0) = []" and "room (wBody w0) = None"
  shows "wStatus (httpError w0 err code) = Some code"
    and "wrote (wBody (httpError w0 err code)) = err @ [CHR 0x0A]"
  using assms
  by (simp_all add: httpError_def writeBody_def writeHeader_def wWrite_def Let_def)

text \<open>With a capture limit that is not negative, no step of the handler panics.\<close>

lemma sched1_no_panic:
  assumes "0 \<le> maxCapture (conf e)" and "hpc s \<noteq> HPanicked"
  shows "hpc (sched1 e b s) \<noteq> HPanicked"
proof (cases b)
  case False
  with assms(2) show ?thesis by (simp add: sched1_tracker_hpc)
next
  case True
  from captureBody_total [OF assms(1)] obtain cb rc' old
    where "captureBody (Some (reqBodyVar s)) (maxCapture (conf e)) = Inr (cb, rc', old)"
    by blast
  with True assms(2) show ?thesis
    by (cases "hpc s")
       (auto simp: sched1_def hstep_def vdbg_ok always_ok Let_def split: sum.splits if_splits)
qed

lemma never_panics:
  "0 \<le> maxCapture (conf e) \<Longrightarrow> hpc s \<noteq> HPanicked \<Longrightarrow> hpc (run e sched s) \<noteq> HPanicked"
  by (induction sched arbitrary: s) (simp_all add: sched1_no_panic)

text \<open>An execution without a logger is the execution with one, its log left out.\<close>

lemma hstep_mute:
  "hstep e (s\<lparr>lg := None\<rparr>) = map_option (\<lambda>t. t\<lparr>lg := None\<rparr>) (hstep e s)"
  by (cases "hpc s")
     (auto simp: hstep_def vdbg_ok always_ok Let_def split: sum.splits prod.splits option.splits)

lemma tstep_mute:
  "tstep e (s\<lparr>lg := None\<rparr>) = map_option (\<lambda>t. t\<lparr>lg := None\<rparr>) (tstep e s)"
  by (cases "tpc s")
     (auto simp: tstep_def trackingCoroutine_post_def vdbg_ok Let_def
           split: list.splits prod.splits option.splits)

lemma sched1_mute: "sched1 e b (s\<lparr>lg := None\<rparr>) = (sched1 e b s)\<lparr>lg := None\<rparr>"
  by (cases b) (auto simp: sched1_def hstep_mute tstep_mute split: option.splits)

lemma run_mute: "run e sched (s\<lparr>lg := None\<rparr>) = (run e sched s)\<lparr>lg := None\<rparr>"
  by (induction sched arbitrary: s) (simp_all add: sched1_mute)

text \<open>The facts that evaluate an execution on the example inputs.\<close>

lemmas demo_defs = demoEnv_def demoUpstream_def demoInit_def demoResponseWriter_def demoWriter_def
  demoStream_def demoRender_def

lemmas step_defs = sched1_def hstep_def tstep_def init_def Let_def captureBody_some readAll_Src
  streamAndCapture_on payload_eq trackingCoroutine_post_def vdbg_ok always_ok writeHeader_def
  headerAdd_def httpError_def writeBody_def wWrite_def headerSet_def headerDel_def
  StatusBadGateway_def bufPoolGet_def

text \<open>The states that the handlers of the two-request example end in.\<close>

lemma afterFirstHandler_eval:
  "hpc afterFirstHandler = HDone" "tpc afterFirstHandler = TWaiting"
  "chanBuf afterFirstHandler = [capture firstCapture]"
  "capResp afterFirstHandler = capture firstCapture"
  "capReq afterFirstHandler = ''0123456789''"
  "hp afterFirstHandler = heapAfter firstCapture"
  "slicePool afterFirstHandler = poolAfter firstCapture"
  "bufPool afterFirstHandler = []" "posts afterFirstHandler = []"
  by (simp_all add: afterFirstHandler_def firstRequest_def firstCapture_def demo_defs
        sched1_def hstep_def init_def Let_def captureBody_some readAll_Src vdbg_ok always_ok
        writeHeader_def)

lemma afterSecondHandler_eval:
  "hpc afterSecondHandler = HDone"
  "hp afterSecondHandler = heapAfter secondCapture"
  by (simp_all add: afterSecondHandler_def afterFirstHandler_eval secondRequest_def
        secondCapture_def demo_defs
        sched1_def hstep_def init_def Let_def captureBody_some readAll_Src vdbg_ok always_ok
        writeHeader_def)

section \<open>The properties of the specification, C1 to C10\<close>

text \<open>
  C1. Claimed: for every source stream and every \<open>maxCapture > 0\<close>, \<^verbatim>\<open>streamAndCapture\<close>
  delivers the complete source stream to the destination, unmodified and in order, also when
  the stream is longer than \<open>maxCapture\<close> bytes, and returns a capture of at most
  \<open>maxCapture\<close> bytes. The code puts the \<^verbatim>\<open>LimitedReader\<close> under the tee, so the copy to
  the destination ends with the capture (\<open>streamAndCapture_on\<close>): of the stream \<open>hello\<close>,
  arriving in two chunks, a limit of 4 lets only \<open>hell\<close> reach the destination.
\<close>

theorem streamAndCapture_cuts_the_forwarded_stream:
  "content (demoStream [''hel'', ''lo'']) = ''hello''
   \<and> wrote (dstAfter (streamAndCapture demoWriter (demoStream [''hel'', ''lo'']) 4 demoHeap [])) = ''hell''"
  by (simp add: streamAndCapture_on demoWriter_def demoStream_def)

text \<open>
  C2. Claimed: the captured slice is copied out of the pooled scratch buffer before the
  buffer goes back to the pool, so that what the delivery task receives never aliases a
  pooled buffer. The code returns \<open>buf\<close> itself and puts \<open>buf[:0]\<close>, the same backing array,
  into the pool (\<open>streamAndCapture_alias\<close>). Here the capture of a first response is
  returned as a slice of array 0, which is also the slice left in the pool; the capture of a
  second response takes that slice from the pool and writes over the first one's bytes, and
  a delivery task that builds its payload from the first slice afterwards sends them.
\<close>

theorem captured_slice_shares_the_pooled_array:
  "capture firstCapture = Some \<lparr>sbase = 0, slen = 11, scap = 262144\<rparr>
   \<and> poolAfter firstCapture = [\<lparr>sbase = 0, slen = 0, scap = 262144\<rparr>]
   \<and> bytesOf (heapAfter firstCapture) (capture firstCapture) = ''first reply''
   \<and> capture secondCapture = Some \<lparr>sbase = 0, slen = 6, scap = 262144\<rparr>
   \<and> bytesOf (heapAfter secondCapture) (capture firstCapture) = ''SECONDreply''
   \<and> fst (trackingCoroutine_payload demoRender \<lparr>path = ''/a'', rawQuery = []\<rparr> []
             (capture firstCapture) (heapAfter secondCapture) [])
       = ''{$responseBody}SECONDreply{/responseBody},{$requestBody}{/requestBody},{$requestQuery}{/requestQuery},{$requestUrl}/a{/requestUrl}''"
proof -
  have g: "slicePoolGet (heapAfter firstCapture) (poolAfter firstCapture)
             = (\<lparr>sbase = 0, slen = 0, scap = 262144\<rparr>, heapAfter firstCapture, [])"
    by (simp add: firstCapture_eval slicePoolGet_def)
  have s1: "capture secondCapture = Some \<lparr>sbase = 0, slen = 6, scap = 262144\<rparr>"
    unfolding secondCapture_def
    by (subst streamAndCapture_inplace(1) [OF _ _ g])
       (simp_all add: demoWriter_def demoStream_def)
  have s2: "heapAfter secondCapture =
      (heapAfter firstCapture)\<lparr>arrays := (arrays (heapAfter firstCapture))(0 :=
                  storeAt (arrays (heapAfter firstCapture) 0) 0 ''SECOND'')\<rparr>"
    unfolding secondCapture_def
    by (subst streamAndCapture_inplace(2) [OF _ _ g])
       (simp_all add: demoWriter_def demoStream_def)
  have up: "[0..<11] = [0,1,2,3,4,5,6,7,8,9,10]"
    by (simp add: upt_rec)
  have b: "bytesOf (heapAfter secondCapture) (capture firstCapture) = ''SECONDreply''"
    by (simp add: s2 firstCapture_eval bytesOf_def sliceBytes_def up)
  show ?thesis
    by (simp add: s1 b payload_eq demoRender_def)
       (simp add: firstCapture_eval bytesOf_def sliceBytes_def up)
qed










text \<open>
  C6. For every captured request body, captured response body, raw query string and full
  URL, the payload built by the delivery task is the concatenation of four tagged segments
  in the order response body, request body, raw query, full URL; each segment is wrapped in
  an opening and a closing marker that contain the field name, consecutive segments are
  separated by a comma, and the captured bytes stand between their markers as they are,
  with no escaping. Whatever the pooled buffer held before has no influence. Both copies
  of the source build the same payload. The POST carries the payload as its body and
  declares the content type \<open>text/plain\<close>.
\<close>

theorem payload_is_four_tagged_segments:
  "fst (trackingCoroutine_payload us u reqB respB h pool) =
     ''{$responseBody}'' @ bytesOf h respB @ ''{/responseBody}'' @ '','' @
     ''{$requestBody}'' @ reqB @ ''{/requestBody}'' @ '','' @
     ''{$requestQuery}'' @ rawQuery u @ ''{/requestQuery}'' @ '','' @
     ''{$requestUrl}'' @ us u @ ''{/requestUrl}''
   \<and> trackCoroutine_payload us u reqB respB h pool = trackingCoroutine_payload us u reqB respB h pool
   \<and> postBody (fst (trackingCoroutine_post c payload outcome l)) = payload
   \<and> contentType (fst (trackingCoroutine_post c payload outcome l)) = ''text/plain''
   \<and> postMethod (fst (trackingCoroutine_post c payload outcome l)) = ''POST''"
  by (simp add: payload_eq payload_eq2 trackingCoroutine_post_def Let_def)

text \<open>
  C7. Claimed: registration with a missing or malformed \<open>tracking_url\<close> fails with a
  configuration error, and a minimal configuration registers with the defaults. A malformed
  URL does give the error (\<open>registerClients_malformed\<close>), the minimal configuration the
  defaults (\<open>registerClients_minimal\<close>), and values \<open>\<le> 0\<close> are ignored
  (\<open>effective_defaults\<close>). A block without the key \<open>tracking_url\<close> does not: the unchecked
  type assertion on the missing value panics before any error can be returned.
\<close>

theorem registerClients_panics_without_tracking_url:
  "registerClients demoParse pluginName [(pluginName, JObj [(''timeout_ms'', JNum 500)])] (Some [])
     = Inl (Panic ''interface conversion: interface {} is not string'')"
  by (simp add: registerClients_def pluginName_def)

text \<open>
  C8, as amended. When the upstream call fails, in every execution: the channel is never
  written nor closed, the delivery task never gets past its receive and nothing is posted;
  the handler goes no further than its failure branch, reaches it once it has taken two
  steps (the capture limit not being negative), and has then answered with
  \<^verbatim>\<open>http.Error\<close>: on a fresh response writer, status 502 and a body that is the raw error
  text followed by a newline.
\<close>

theorem upstream_failure_answers_502_and_never_hands_off:
  assumes "upstream e = Inl err" and "s = run e sched (init e w0 h sp bp l)"
  shows "chanBuf s = [] \<and> \<not> chanClosed s \<and> (tpc s = TNone \<or> tpc s = TWaiting) \<and> posts s = []
       \<and> (hpc s = HStart \<or> hpc s = HPanicked \<or> hpc s = HSpawned \<or> hpc s = HFailed)
       \<and> (hpc s = HFailed \<longrightarrow> w s = httpError w0 err StatusBadGateway)
       \<and> (0 \<le> maxCapture (conf e) \<and> 2 \<le> length (filter (\<lambda>b. b) sched) \<longrightarrow> hpc s = HFailed)
       \<and> (wStatus w0 = None \<and> wrote (wBody w0) = [] \<and> room (wBody w0) = None \<longrightarrow>
            wStatus (httpError w0 err StatusBadGateway) = Some 502
            \<and> wrote (wBody (httpError w0 err StatusBadGateway)) = err @ [CHR 0x0A])"
proof -
  have t: "trackerInv e s" and hi: "handlerInv e w0 h sp s"
    using assms(2) by (simp_all add: reach_inv)
  from hi assms(1) have pc: "hpc s = HStart \<or> hpc s = HPanicked \<or> hpc s = HSpawned \<or> hpc s = HFailed"
    by (auto simp: handlerInv_def split: if_splits)
  from hi assms(1) have resp: "hpc s = HFailed \<longrightarrow> w s = httpError w0 err StatusBadGateway"
    by (auto simp: handlerInv_def split: if_splits)
  from pc have ns: "\<not> hsent s" by (auto simp: hsent_def)
  from t ns have tr: "chanBuf s = [] \<and> \<not> chanClosed s \<and> (tpc s = TNone \<or> tpc s = TWaiting) \<and> posts s = []"
    by (cases "tpc s") (auto simp: trackerInv_def)
  have live: "0 \<le> maxCapture (conf e) \<and> 2 \<le> length (filter (\<lambda>b. b) sched) \<longrightarrow> hpc s = HFailed"
    using start_fails [OF assms(1), of "init e w0 h sp bp l" sched] assms(2)
    by (simp add: init_def)
  from pc resp tr live show ?thesis
    by (simp add: httpError_fresh StatusBadGateway_def)
qed

text \<open>The amended statement for a refused connection, the goroutine scheduled in between.\<close>

theorem upstream_failure_answers_502_and_never_hands_off_witness:
  "upstream (demoEnv 4 (Inl ''connection refused'')) = Inl ''connection refused''
   \<and> hpc (run (demoEnv 4 (Inl ''connection refused'')) [True, False, True, False]
         (demoInit (demoEnv 4 (Inl ''connection refused'')))) = HFailed
   \<and> tpc (run (demoEnv 4 (Inl ''connection refused'')) [True, False, True, False]
         (demoInit (demoEnv 4 (Inl ''connection refused'')))) = TWaiting
   \<and> chanBuf (run (demoEnv 4 (Inl ''connection refused'')) [True, False, True, False]
         (demoInit (demoEnv 4 (Inl ''connection refused'')))) = []
   \<and> posts (run (demoEnv 4 (Inl ''connection refused'')) [True, False, True, False]
         (demoInit (demoEnv 4 (Inl ''connection refused'')))) = []
   \<and> wStatus (w (run (demoEnv 4 (Inl ''connection refused'')) [True, False, True, False]
         (demoInit (demoEnv 4 (Inl ''connection refused''))))) = Some 502
   \<and> wrote (wBody (w (run (demoEnv 4 (Inl ''connection refused'')) [True, False, True, False]
         (demoInit (demoEnv 4 (Inl ''connection refused'')))))) = ''connection refused'' @ [CHR 0x0A]"
proof -
  have u: "upstream (demoEnv 4 (Inl ''connection refused'')) = Inl ''connection refused''"
    by (simp add: demoEnv_def)
  have m: "0 \<le> maxCapture (conf (demoEnv 4 (Inl ''connection refused'')))
           \<and> 2 \<le> length (filter (\<lambda>b. b) [True, False, True, False])"
    by (simp add: demoEnv_def)
  have f: "wStatus demoResponseWriter = None \<and> wrote (wBody demoResponseWriter) = []
           \<and> room (wBody demoResponseWriter) = None"
    by (simp add: demoResponseWriter_def demoWriter_def)
  from upstream_failure_answers_502_and_never_hands_off
         [OF u, of _ "[True, False, True, False]" demoResponseWriter demoHeap "[]" "[]" None,
          OF demoInit_def [of "demoEnv 4 (Inl ''connection refused'')", THEN arg_cong, of "run (demoEnv 4 (Inl ''connection refused'')) [True, False, True, False]"]]
       u m f
  show ?thesis
    by (cases "tpc (run (demoEnv 4 (Inl ''connection refused'')) [True, False, True, False]
         (demoInit (demoEnv 4 (Inl ''connection refused''))))") (simp_all add: demo_defs step_defs)
qed

text \<open>
  C8 as claimed (the body is the raw error text) fails by the newline that
  \<^verbatim>\<open>http.Error\<close> prints after the text.
\<close>

theorem gateway_failure_body_is_error_text_and_newline:
  "hpc (run (demoEnv 4 (Inl ''connection refused'')) [True, True]
         (demoInit (demoEnv 4 (Inl ''connection refused'')))) = HFailed
   \<and> wStatus (w (run (demoEnv 4 (Inl ''connection refused'')) [True, True]
         (demoInit (demoEnv 4 (Inl ''connection refused''))))) = Some 502
   \<and> wrote (wBody (w (run (demoEnv 4 (Inl ''connection refused'')) [True, True]
         (demoInit (demoEnv 4 (Inl ''connection refused'')))))) = ''connection refused'' @ [CHR 0x0A]
   \<and> wrote (wBody (w (run (demoEnv 4 (Inl ''connection refused'')) [True, True]
         (demoInit (demoEnv 4 (Inl ''connection refused'')))))) \<noteq> ''connection refused''"
  by (simp add: demo_defs step_defs)

text \<open>
  C9. Claimed: the delivery task never builds the payload before the handoff, so that the
  payload always contains the captured response-body bytes. The order holds in every
  execution (\<open>handoff_precedes_payload\<close>): the task receives before it builds, and what it
  receives is the slice that \<^verbatim>\<open>streamAndCapture\<close> returned. But the payload is built from
  the bytes that this slice holds at that moment, and the slice shares its array with the
  pool (C2). Here the handler of a first request has captured \<open>first reply\<close>, sent the
  slice and returned, its delivery task still waiting at the receive; a second request is
  handled; the delivery task of the first then receives its slice and posts
  \<open>SECONDreply\<close> as the response body.
\<close>

theorem payload_carries_another_response:
  "hpc afterFirstHandler = HDone \<and> tpc afterFirstHandler = TWaiting
   \<and> chanBuf afterFirstHandler = [capResp afterFirstHandler]
   \<and> bytesOf (hp afterFirstHandler) (capResp afterFirstHandler) = ''first reply''
   \<and> posts afterFirstHandler = []
   \<and> hpc afterSecondHandler = HDone
   \<and> tpc firstDelivery = TDone
   \<and> map postBody (posts firstDelivery)
       = [''{$responseBody}SECONDreply{/responseBody},{$requestBody}0123456789{/requestBody},{$requestQuery}x=1{/requestQuery},{$requestUrl}/foo?x=1{/requestUrl}'']"
proof -
  have d: "tpc firstDelivery = TDone
     \<and> map postBody (posts firstDelivery)
       = [''{$responseBody}'' @ bytesOf (heapAfter secondCapture) (capture firstCapture)
          @ ''{/responseBody},{$requestBody}0123456789{/requestBody},{$requestQuery}x=1{/requestQuery},{$requestUrl}/foo?x=1{/requestUrl}'']"
    unfolding firstDelivery_def
    by (simp add: sched1_def tstep_def afterFirstHandler_eval afterSecondHandler_eval payload_eq
          trackingCoroutine_post_def vdbg_ok Let_def bufPoolGet_def firstRequest_def demoEnv_def
          demoRender_def)
  show ?thesis
    using d
    by (simp add: afterFirstHandler_eval afterSecondHandler_eval firstCapture_bytes
          secondCapture_eval)
qed

text \<open>
  C10. Every log emission on the request path goes through \<^verbatim>\<open>vdbg\<close> or \<^verbatim>\<open>always\<close>, which
  call the logger only after checking that one was injected: on a nil logger they return
  without a fault and leave it nil, and whatever the logger they do not panic. So in no
  execution does the goroutine panic, the handler panics only if the capture limit is
  negative, and an execution without a logger is, step for step, the execution with one,
  the log apart. \<^verbatim>\<open>registerClients\<close> calls \<^verbatim>\<open>logger.Info\<close> without such a check: with a
  valid configuration it panics on a nil logger, and with a logger it appends one info entry
  whatever \<open>verbose\<close> says.
\<close>

theorem request_path_logging_checks_the_logger:
  "vdbg c v None = Inr None
   \<and> always v None = Inr None
   \<and> (\<forall>f. vdbg c v l \<noteq> Inl f) \<and> (\<forall>f. always v l \<noteq> Inl f)
   \<and> tpc (run e sched (init e w0 h sp bp l)) \<noteq> TPanicked
   \<and> (0 \<le> maxCapture (conf e) \<longrightarrow> hpc (run e sched (init e w0 h sp bp l)) \<noteq> HPanicked)
   \<and> run e sched (init e w0 h sp bp None) = (run e sched (init e w0 h sp bp (Some es)))\<lparr>lg := None\<rparr>
   \<and> (map_of extra r = Some (JObj block) \<and> map_of block ''tracking_url'' = Some (JStr u)
        \<and> P u = Inr target \<longrightarrow>
          registerClients P r extra None = Inl (Panic ''nil pointer dereference'')
          \<and> (\<exists>c args. registerClients P r extra (Some es) = Inr (c, Some (es @ [(Info, args)]))))"
proof -
  have "init e w0 h sp bp None = (init e w0 h sp bp (Some es))\<lparr>lg := None\<rparr>"
    by (simp add: init_def)
  then have m: "run e sched (init e w0 h sp bp None)
      = (run e sched (init e w0 h sp bp (Some es)))\<lparr>lg := None\<rparr>"
    by (simp only: run_mute)
  have "trackerInv e (run e sched (init e w0 h sp bp l))"
    by (rule reach_inv)
  then have t: "tpc (run e sched (init e w0 h sp bp l)) \<noteq> TPanicked"
    by (auto simp: trackerInv_def)
  have p: "0 \<le> maxCapture (conf e) \<longrightarrow> hpc (run e sched (init e w0 h sp bp l)) \<noteq> HPanicked"
    by (simp add: never_panics init_def)
  from m t p show ?thesis
    by (simp add: vdbg_ok always_ok registerClients_form)
qed

text \<open>The statement for the minimal configuration and the example request.\<close>

theorem request_path_logging_checks_the_logger_witness:
  "registerClients demoParse pluginName
       [(pluginName, JObj [(''tracking_url'', JStr ''http://tracking.svc/api'')])] None
     = Inl (Panic ''nil pointer dereference'')
   \<and> hpc (run (demoEnv 4 demoUpstream) [True, True, True, True, True, False, False, False]
             (demoInit (demoEnv 4 demoUpstream))) = HDone
   \<and> lg (run (demoEnv 4 demoUpstream) [True, True, True, True, True, False, False, False]
             (demoInit (demoEnv 4 demoUpstream))) = None"
proof -
  have "map_of [(pluginName, JObj [(''tracking_url'', JStr ''http://tracking.svc/api'')])] pluginName
          = Some (JObj [(''tracking_url'', JStr ''http://tracking.svc/api'')])
        \<and> map_of [(''tracking_url'', JStr ''http://tracking.svc/api'')] ''tracking_url''
          = Some (JStr ''http://tracking.svc/api'')
        \<and> demoParse ''http://tracking.svc/api'' = Inr \<lparr>path = ''http://tracking.svc/api'', rawQuery = []\<rparr>"
    by (simp add: demoParse_def)
  with request_path_logging_checks_the_logger
    [where e = "demoEnv 4 demoUpstream"
       and sched = "[True, True, True, True, True, False, False, False]"
       and ?w0.0 = demoResponseWriter and h = demoHeap and sp = "[]" and bp = "[]" and es = "[]"
       and extra = "[(pluginName, JObj [(''tracking_url'', JStr ''http://tracking.svc/api'')])]"
       and r = pluginName
       and block = "[(''tracking_url'', JStr ''http://tracking.svc/api'')]"
       and u = "''http://tracking.svc/api''" and P = demoParse
       and target = "\<lparr>path = ''http://tracking.svc/api'', rawQuery = []\<rparr>"]
  have r: "registerClients demoParse pluginName
       [(pluginName, JObj [(''tracking_url'', JStr ''http://tracking.svc/api'')])] None
     = Inl (Panic ''nil pointer dereference'')"
    and m: "run (demoEnv 4 demoUpstream) [True, True, True, True, True, False, False, False]
              (init (demoEnv 4 demoUpstream) demoResponseWriter demoHeap [] [] None)
          = (run (demoEnv 4 demoUpstream) [True, True, True, True, True, False, False, False]
              (init (demoEnv 4 demoUpstream) demoResponseWriter demoHeap [] [] (Some [])))\<lparr>lg := None\<rparr>"
    by blast+
  have pc: "hpc (run (demoEnv 4 demoUpstream) [True, True, True, True, True, False, False, False]
             (init (demoEnv 4 demoUpstream) demoResponseWriter demoHeap [] [] (Some []))) = HDone"
    by (simp add: demo_defs step_defs)
  from r m pc show ?thesis
    by (simp add: demoInit_def)
qed

end
